theory Spec2Isabelle
  imports Main "HOL-Library.Sublist" "HOL-Library.Log_Nat"
begin

section \<open>Python regular expressions, as far as canva.py uses them\<close>

text \<open>
  Text is a list of 8-bit characters, read as code points below 256. The three patterns of
  canva.py are built from literals, character classes under a greedy or lazy star or a greedy
  plus, optional groups, alternatives and concatenation. \<open>ms r s\<close> lists every way in which
  \<open>r\<close> matches a prefix of \<open>s\<close>, as pairs of the matched text and the rest, in the order in
  which Python's backtracking matcher tries them; the first element is the match \<open>re\<close> reports.
\<close>

datatype rx =
    Lit string
  | Star "char \<Rightarrow> bool"
  | LazyStar "char \<Rightarrow> bool"
  | Plus "char \<Rightarrow> bool"
  | Opt rx
  | Alt rx rx
  | Seq rx rx

definition split_at :: "string \<Rightarrow> nat \<Rightarrow> string \<times> string" where
  "split_at s n = (take n s, drop n s)"

fun ms :: "rx \<Rightarrow> string \<Rightarrow> (string \<times> string) list" where
  "ms (Lit l) s = (if prefix l s then [(l, drop (length l) s)] else [])"
| "ms (Star P) s = map (split_at s) (rev [0 ..< Suc (length (takeWhile P s))])"
| "ms (LazyStar P) s = map (split_at s) [0 ..< Suc (length (takeWhile P s))]"
| "ms (Plus P) s = map (split_at s) (rev [1 ..< Suc (length (takeWhile P s))])"
| "ms (Opt r) s = ms r s @ [([], s)]"
| "ms (Alt r1 r2) s = ms r1 s @ ms r2 s"
| "ms (Seq r1 r2) s =
     concat (map (\<lambda>(t, rest). map (\<lambda>(t', rest'). (t @ t', rest')) (ms r2 rest)) (ms r1 s))"

text \<open>The language of a pattern: the texts it can match, whatever the order of the attempts.\<close>

fun lang :: "rx \<Rightarrow> string set" where
  "lang (Lit l) = {l}"
| "lang (Star P) = {w. \<forall>c \<in> set w. P c}"
| "lang (LazyStar P) = {w. \<forall>c \<in> set w. P c}"
| "lang (Plus P) = {w. w \<noteq> [] \<and> (\<forall>c \<in> set w. P c)}"
| "lang (Opt r) = insert [] (lang r)"
| "lang (Alt r1 r2) = lang r1 \<union> lang r2"
| "lang (Seq r1 r2) = {u @ v | u v. u \<in> lang r1 \<and> v \<in> lang r2}"

fun seqs :: "rx list \<Rightarrow> rx" where
  "seqs [] = Lit []"
| "seqs (r # rs) = Seq r (seqs rs)"

text \<open>
  A pattern with groups is the list of its top-level pieces; a match gives the text of every
  piece, so that a group is read off by position.
\<close>

fun matches :: "rx list \<Rightarrow> string \<Rightarrow> (string list \<times> string) list" where
  "matches [] s = [([], s)]"
| "matches (r # rs) s =
     concat (map (\<lambda>(t, rest). map (\<lambda>(ts, rest'). (t # ts, rest')) (matches rs rest)) (ms r s))"

text \<open>\<open>re.match\<close>: the first match at offset 0.\<close>

definition re_match :: "rx list \<Rightarrow> string \<Rightarrow> string list option" where
  "re_match rs s = (case matches rs s of [] \<Rightarrow> None | (ts, rest) # _ \<Rightarrow> Some ts)"

text \<open>\<open>re.search\<close>: the first match at the leftmost offset that has one.\<close>

fun re_search :: "rx list \<Rightarrow> string \<Rightarrow> string list option" where
  "re_search rs [] = re_match rs []"
| "re_search rs (c # cs) =
     (case re_match rs (c # cs) of Some ts \<Rightarrow> Some ts | None \<Rightarrow> re_search rs cs)"

text \<open>
  \<open>re.sub(pattern, '', s)\<close> for a pattern that starts with \<open>^\<close> and is compiled without
  \<open>re.MULTILINE\<close>: the pattern can match at offset 0 only, and it cannot match the empty text
  here, so at most one match is replaced.
\<close>

definition re_sub_bol :: "rx \<Rightarrow> string \<Rightarrow> string" where
  "re_sub_bol r s = (case ms r s of [] \<Rightarrow> s | (t, rest) # _ \<Rightarrow> rest)"

subsection \<open>Character classes\<close>

text \<open>\<open>\s\<close> on \<open>str\<close>: the code points below 256 that \<open>str.isspace\<close> accepts.\<close>

definition is_space :: "char \<Rightarrow> bool" where
  "is_space c = (c \<in> set [CHR 0x09, CHR 0x0A, CHR 0x0B, CHR 0x0C, CHR 0x0D, CHR 0x1C, CHR 0x1D,
                            CHR 0x1E, CHR 0x1F, CHR 0x20, CHR 0x85, CHR 0xA0])"

text \<open>\<open>.\<close> without \<open>re.DOTALL\<close>.\<close>

definition not_newline :: "char \<Rightarrow> bool" where
  "not_newline c = (c \<noteq> CHR 0x0A)"

text \<open>\<open>\d\<close>: below 256 the decimal digits are \<open>0\<close> to \<open>9\<close>.\<close>

definition is_digit :: "char \<Rightarrow> bool" where
  "is_digit c = (c \<in> set ''0123456789'')"

text \<open>\<open>[^/]\<close>\<close>

definition not_slash :: "char \<Rightarrow> bool" where
  "not_slash c = (c \<noteq> CHR ''/'')"

section \<open>Python built-ins and yt-dlp helpers used by canva.py\<close>

text \<open>\<open>needle in haystack\<close> on \<open>str\<close>.\<close>

fun contains :: "string \<Rightarrow> string \<Rightarrow> bool" where
  "contains needle [] = (needle = [])"
| "contains needle (c # cs) = (prefix needle (c # cs) \<or> contains needle cs)"

text \<open>
  \<open>str.lower\<close> below code point 256: the upper-case letters are \<open>A\<close> to \<open>Z\<close>, U+00C0 to
  U+00D6 and U+00D8 to U+00DE, each 32 below its lower-case letter; every other character is
  left as it is.
\<close>

definition upper_chars :: string where
  "upper_chars = ''ABCDEFGHIJKLMNOPQRSTUVWXYZ'' @
     [CHR 0xC0, CHR 0xC1, CHR 0xC2, CHR 0xC3, CHR 0xC4, CHR 0xC5, CHR 0xC6, CHR 0xC7, CHR 0xC8,
      CHR 0xC9, CHR 0xCA, CHR 0xCB, CHR 0xCC, CHR 0xCD, CHR 0xCE, CHR 0xCF, CHR 0xD0, CHR 0xD1,
      CHR 0xD2, CHR 0xD3, CHR 0xD4, CHR 0xD5, CHR 0xD6, CHR 0xD8, CHR 0xD9, CHR 0xDA, CHR 0xDB,
      CHR 0xDC, CHR 0xDD, CHR 0xDE]"

definition lower_chars :: string where
  "lower_chars = ''abcdefghijklmnopqrstuvwxyz'' @
     [CHR 0xE0, CHR 0xE1, CHR 0xE2, CHR 0xE3, CHR 0xE4, CHR 0xE5, CHR 0xE6, CHR 0xE7, CHR 0xE8,
      CHR 0xE9, CHR 0xEA, CHR 0xEB, CHR 0xEC, CHR 0xED, CHR 0xEE, CHR 0xEF, CHR 0xF0, CHR 0xF1,
      CHR 0xF2, CHR 0xF3, CHR 0xF4, CHR 0xF5, CHR 0xF6, CHR 0xF8, CHR 0xF9, CHR 0xFA, CHR 0xFB,
      CHR 0xFC, CHR 0xFD, CHR 0xFE]"

definition lower_char :: "char \<Rightarrow> char" where
  "lower_char c = (case map_of (zip upper_chars lower_chars) c of Some l \<Rightarrow> l | None \<Rightarrow> c)"

definition lower :: "string \<Rightarrow> string" where
  "lower s = map lower_char s"

text \<open>\<open>str(n)\<close> for a non-negative \<open>int\<close>, as the f-strings use it.\<close>

function str_nat :: "nat \<Rightarrow> string" where
  "str_nat n = (if n < 10 then [''0123456789'' ! n]
                else str_nat (n div 10) @ [''0123456789'' ! (n mod 10)])"
  by pat_completeness auto
termination
  by (relation "measure id") auto

declare str_nat.simps [simp del]

text \<open>
  A Python \<open>float\<close>: \<open>Finite m x\<close> is the binary64 number \<open>m * 2 ^ x\<close>, \<open>Infinity\<close> is \<open>inf\<close>.
\<close>

datatype pyfloat = Finite int int | Infinity

text \<open>\<open>floor_log2 n d\<close> is the largest \<open>k\<close> with \<open>2 ^ k \<le> n / d\<close>, for positive \<open>n\<close> and \<open>d\<close>.\<close>

definition floor_log2 :: "int \<Rightarrow> int \<Rightarrow> int" where
  "floor_log2 n d =
     (let k = bitlen n - bitlen d
      in if (if 0 \<le> k then d * 2 ^ nat k \<le> n else d \<le> n * 2 ^ nat (- k)) then k else k - 1)"

text \<open>The integer nearest to \<open>a / b\<close>, a tie going to the even one.\<close>

definition round_half_even :: "int \<Rightarrow> int \<Rightarrow> int" where
  "round_half_even a b =
     (let q = a div b; r = a mod b
      in if 2 * r < b then q else if b < 2 * r then q + 1 else if even q then q else q + 1)"

text \<open>
  The binary64 number nearest to \<open>n / d\<close>, for \<open>0 \<le> n\<close> and \<open>0 < d\<close> (53 significant bits,
  exponents from -1022 to 1023, gradual underflow), ties to even, as \<open>float(str)\<close> rounds a
  decimal literal; \<open>inf\<close> from \<open>2 ^ 1024\<close> on.
\<close>

definition round_binary64 :: "int \<Rightarrow> int \<Rightarrow> pyfloat" where
  "round_binary64 n d =
     (if n = 0 then Finite 0 0
      else let x = max (floor_log2 n d) (- 1022) - 52;
               m = (if 0 \<le> x then round_half_even n (d * 2 ^ nat x)
                    else round_half_even (n * 2 ^ nat (- x)) d)
           in if 0 \<le> x \<and> 2 ^ 1024 \<le> m * 2 ^ nat x then Infinity else Finite m x)"

definition digit_val :: "char \<Rightarrow> int" where
  "digit_val c = int (length (takeWhile (\<lambda>d. d \<noteq> c) ''0123456789''))"

definition nat_of_digits :: "string \<Rightarrow> int" where
  "nat_of_digits ds = foldl (\<lambda>a c. 10 * a + digit_val c) 0 ds"

text \<open>
  Modelled from the spec: \<open>float_or_none\<close> of yt_dlp/utils, which is not among the sources
  ("parsed from floating-point page fields"). With the default scale, on a \<open>str\<close>, it is
  \<open>float(v)\<close>, and \<open>None\<close> where \<open>float\<close> raises \<open>ValueError\<close>. The literals covered are those
  the dimension pattern can capture, digits with an optional fraction; for every other text
  the result here is \<open>None\<close>.
\<close>

definition float_or_none :: "string \<Rightarrow> pyfloat option" where
  "float_or_none v =
     (let ip = takeWhile is_digit v; r = dropWhile is_digit v
      in if ip = [] then None
         else case r of
                [] \<Rightarrow> Some (round_binary64 (nat_of_digits ip) 1)
              | c # fp \<Rightarrow>
                  if c = CHR ''.'' \<and> fp \<noteq> [] \<and> list_all is_digit fp
                  then Some (round_binary64 (nat_of_digits (ip @ fp)) (10 ^ length fp))
                  else None)"

text \<open>
  Modelled from the spec: \<open>int_or_none\<close> of yt_dlp/utils, which is not among the sources
  ("coerced to integers"). With the default scale, on the result of \<open>float_or_none\<close>, it is
  \<open>int(v)\<close>, which truncates towards zero; \<open>int(None)\<close> raises \<open>TypeError\<close> and \<open>int(inf)\<close>
  raises \<open>OverflowError\<close>, both caught and answered with \<open>None\<close>.
\<close>

fun int_or_none :: "pyfloat option \<Rightarrow> int option" where
  "int_or_none None = None"
| "int_or_none (Some Infinity) = None"
| "int_or_none (Some (Finite m x)) =
     Some (if 0 \<le> x then m * 2 ^ nat x
           else if 0 \<le> m then m div 2 ^ nat (- x) else - ((- m) div 2 ^ nat (- x)))"

text \<open>
  Python's \<open>a or b\<close> and \<open>not a\<close> on values that are \<open>None\<close> or a \<open>str\<close>: \<open>None\<close> and the
  empty text are false.
\<close>

definition truthy :: "string option \<Rightarrow> bool" where
  "truthy a = (case a of None \<Rightarrow> False | Some s \<Rightarrow> s \<noteq> [])"

definition py_or :: "string option \<Rightarrow> string option \<Rightarrow> string option" where
  "py_or a b = (if truthy a then a else b)"

subsection \<open>JSON values and \<open>traverse_obj\<close>\<close>

text \<open>
  What \<open>json.loads\<close> returns and \<open>json.dumps\<close> takes: \<open>None\<close>, \<open>bool\<close>, \<open>int\<close>, \<open>float\<close>,
  \<open>str\<close>, \<open>list\<close> and \<open>dict\<close> with \<open>str\<close> keys (an association list, read with
  \<open>map_of\<close>).
\<close>

datatype json =
    JNull
  | JBool bool
  | JInt int
  | JFloat pyfloat
  | JString string
  | JArray "json list"
  | JObject "(string \<times> json) list"

datatype key = K string | I nat

text \<open>
  Modelled from the spec: \<open>traverse_obj\<close> of yt_dlp/utils/traversal.py, which is not among the
  sources ("traverse a JSON tree by path, tolerate missing keys, optionally coerce to a type",
  "returning absence rather than throwing"). A \<open>str\<close> key reads a \<open>dict\<close> with \<open>dict.get\<close>, an
  \<open>int\<close> key indexes a \<open>list\<close>; anything else, a missing key and an index out of range give
  \<open>None\<close>, which is \<open>JNull\<close> here.
\<close>

fun apply_key :: "key \<Rightarrow> json \<Rightarrow> json" where
  "apply_key (K k) (JObject kvs) = (case map_of kvs k of None \<Rightarrow> JNull | Some v \<Rightarrow> v)"
| "apply_key (I i) (JArray xs) = (if i < length xs then xs ! i else JNull)"
| "apply_key _ _ = JNull"

fun traverse :: "json \<Rightarrow> key list \<Rightarrow> json" where
  "traverse obj [] = obj"
| "traverse obj (k # ks) = traverse (apply_key k obj) ks"

text \<open>A path that ends in \<open>{str}\<close>: the value if it is a \<open>str\<close>, else \<open>None\<close>.\<close>

definition traverse_str :: "json \<Rightarrow> key list \<Rightarrow> string option" where
  "traverse_str obj path = (case traverse obj path of JString s \<Rightarrow> Some s | _ \<Rightarrow> None)"

text \<open>A path that ends in \<open>{f}\<close> for a function \<open>f\<close>: \<open>f\<close> applied to the value found.\<close>

definition traverse_fn :: "(json \<Rightarrow> string option) \<Rightarrow> json \<Rightarrow> key list \<Rightarrow> string option" where
  "traverse_fn f obj path = f (traverse obj path)"

section \<open>The host application\<close>

text \<open>
  An \<open>ExtractorError\<close> carries its message and its \<open>expected\<close> flag. A \<open>HostError\<close> is any
  failure raised inside a collaborator (network, HTTP status); canva.py catches none of them.
\<close>

datatype error =
    ExtractorError string bool
  | AttributeError
  | HostError string

text \<open>
  The collaborators of \<open>InfoExtractor\<close> and \<open>yt_dlp.utils\<close> are not among the sources. The
  pure ones are parameters; the network is scripted: the reply to the page fetch, to the
  export-initiation request and to the poll request of each attempt, each the response text or
  the error the fetch raises.
\<close>

record host =
  webpage_reply :: "error + string"
  export_reply :: "error + string"
  poll_reply :: "nat \<Rightarrow> error + string"
  json_loads :: "string \<Rightarrow> json option"
  og_search_title :: "string \<Rightarrow> string option"
  html_extract_title :: "string \<Rightarrow> string option"
  og_search_thumbnail :: "string \<Rightarrow> string option"
  url_or_none :: "json \<Rightarrow> string option"

text \<open>
  What the extractor does to the outside, in order: \<open>DownloadWebpage url video_id\<close>,
  \<open>DownloadJson url video_id note query data\<close> (a POST when \<open>data\<close> is given, the \<open>dict\<close> that is
  serialised as the body) and \<open>Sleep timeout video_id msg_template\<close>. Every download of
  canva.py asks for impersonation, and both JSON downloads pass \<open>_strip_json_hijack\<close> as
  \<open>transform_source\<close>.
\<close>

datatype event =
    DownloadWebpage string string
  | DownloadJson string string string "(string \<times> string) list" "json option"
  | Sleep nat string string

text \<open>
  Modelled from the spec: \<open>_download_json\<close> of yt_dlp/extractor/common.py, which is not among
  the sources ("fetch JSON with optional response transform": a failed fetch is fatal, the
  transform is applied to the response text, the result is parsed as JSON, and text that does
  not parse is fatal too).
\<close>

definition download_json :: "host \<Rightarrow> (string \<Rightarrow> string) \<Rightarrow> error + string \<Rightarrow> error + json" where
  "download_json h transform_source reply =
     (case reply of
        Inl e \<Rightarrow> Inl e
      | Inr text \<Rightarrow>
          (case json_loads h (transform_source text) of
             None \<Rightarrow> Inl (ExtractorError ''Failed to parse JSON'' False)
           | Some j \<Rightarrow> Inr j))"

section \<open>yt_dlp/extractor/canva.py\<close>

definition VALID_URL :: "rx list" where
  "VALID_URL =
     [seqs [Lit ''http'', Opt (Lit ''s''), Lit ''://'', Opt (Lit ''www.''), Lit ''canva.com/design/''],
      Plus not_slash,
      Lit ''/'',
      Plus not_slash,
      Seq (Lit ''/'') (Alt (Lit ''watch'') (Lit ''view''))]"

definition GUARD_RE :: rx where
  "GUARD_RE =
     seqs [Lit ''while'', Star is_space, Lit ''('', Star is_space, Lit ''1'', Star is_space,
           Lit '')'', Star is_space, Lit '';'', Star is_space, Lit ''</x>//'']"

definition JSON_HIJACK_RE :: rx where
  "JSON_HIJACK_RE = Seq (LazyStar not_newline) GUARD_RE"

definition POLLING_INTERVAL :: nat where
  "POLLING_INTERVAL = 3"

definition POLLING_MAX_ATTEMPTS :: nat where
  "POLLING_MAX_ATTEMPTS = 30"

definition NUMBER_RE :: rx where
  "NUMBER_RE = Seq (Plus is_digit) (Opt (Seq (Lit ''.'') (Plus is_digit)))"

definition DIMENSIONS_RE :: "rx list" where
  "DIMENSIONS_RE =
     [seqs [Lit ''\"C\"'', Star is_space, Lit '':'', Star is_space, Lit ''{'', Star is_space,
            Lit ''\"A\"'', Star is_space, Lit '':'', Star is_space],
      NUMBER_RE,
      seqs [Star is_space, Lit '','', Star is_space, Lit ''\"B\"'', Star is_space, Lit '':'',
            Star is_space],
      NUMBER_RE,
      seqs [Star is_space, Lit '','', Star is_space, Lit ''\"C\"'', Star is_space, Lit '':'',
            Star is_space, Lit ''\"D\"'', Star is_space, Lit ''}'']]"

definition strip_json_hijack :: "string \<Rightarrow> string" where
  "strip_json_hijack data = re_sub_bol JSON_HIJACK_RE data"

text \<open>
  Modelled from the spec: \<open>_match_valid_url\<close> of yt_dlp/extractor/common.py, which is not
  among the sources ("match it against the fixed path pattern"): \<open>re.match\<close> of \<open>_VALID_URL\<close>,
  here with \<open>.group('id', 'token')\<close> applied; \<open>None\<close> when there is no match.
\<close>

definition match_valid_url :: "string \<Rightarrow> (string \<times> string) option" where
  "match_valid_url url =
     (case re_match VALID_URL url of
        Some [_, video_id, _, token, _] \<Rightarrow> Some (video_id, token)
      | _ \<Rightarrow> None)"

text \<open>
  Modelled from the spec: \<open>_search_regex\<close> of yt_dlp/extractor/common.py, which is not among
  the sources ("a regex matching an embedded JSON-like fragment with numeric width/height
  fields; if absent, default"): \<open>re.search\<close>, with \<open>default=None\<close> and \<open>group=(1, 2)\<close> the two
  groups of the match, or \<open>None\<close> when there is no match.
\<close>

definition search_dimensions :: "string \<Rightarrow> (string \<times> string) option" where
  "search_dimensions webpage =
     (case re_search DIMENSIONS_RE webpage of
        Some [_, a, _, b, _] \<Rightarrow> Some (a, b)
      | _ \<Rightarrow> None)"

text \<open>Lines 65 to 71: width and height.\<close>

definition dimensions :: "string \<Rightarrow> int option \<times> int option" where
  "dimensions webpage =
     (case search_dimensions webpage of
        Some (a, b) \<Rightarrow> (int_or_none (float_or_none a), int_or_none (float_or_none b))
      | None \<Rightarrow> (Some 1920, Some 1080))"

definition json_int :: "int option \<Rightarrow> json" where
  "json_int v = (case v of None \<Rightarrow> JNull | Some n \<Rightarrow> JInt n)"

text \<open>The \<open>dict\<close> given to \<open>json.dumps\<close>, lines 78 to 103.\<close>

definition export_request :: "string \<Rightarrow> string \<Rightarrow> int option \<Rightarrow> int option \<Rightarrow> json" where
  "export_request video_id token width height =
     JObject [
       (''priority'', JString ''HIGH''),
       (''pollable'', JBool True),
       (''useSkiaRenderer'', JBool True),
       (''renderSpec'', JObject [
          (''content'', JObject [
             (''schema'', JString ''web-2''),
             (''type'', JString ''DOCUMENT_REFERENCE''),
             (''id'', JString video_id),
             (''version'', JInt (- 1)),
             (''prefetch'', JBool True),
             (''extension'', JString token)]),
          (''mediaQuality'', JString ''PRINT''),
          (''mediaDpi'', JInt 96),
          (''preferWatermarkedMedia'', JBool True),
          (''pages'', JArray [JInt 1])]),
       (''outputSpecs'', JArray [JObject [
          (''destination'', JObject [(''type'', JString ''DOWNLOAD'')]),
          (''pages'', JArray [JInt 1]),
          (''type'', JString ''MP4''),
          (''width'', json_int width),
          (''height'', json_int height)]])]"

record info_dict =
  info_id :: string
  info_title :: "string option"
  info_url :: string
  info_ext :: string
  info_thumbnail :: "string option"
  info_width :: "int option"
  info_height :: "int option"

text \<open>The local variables that the polling loop reads.\<close>

record locals =
  video_id :: string
  title :: "string option"
  thumbnail :: "string option"
  width :: "int option"
  height :: "int option"
  export_id :: string

definition permission_message :: string where
  "permission_message =
     ''You do not have permission to access this design. '' @
     ''The owner must share it as \"Anyone with the link can view\"''"

definition timeout_message :: string where
  "timeout_message =
     ''Export did not complete after '' @ str_nat POLLING_MAX_ATTEMPTS @ '' attempts''"

text \<open>The call of \<open>self._sleep\<close>, lines 113 and 114.\<close>

definition sleep_event :: "locals \<Rightarrow> nat \<Rightarrow> event" where
  "sleep_event l attempt =
     Sleep POLLING_INTERVAL (video_id l)
       (''%(video_id)s: Waiting for export to complete (attempt '' @ str_nat attempt @ ''/'' @
        str_nat POLLING_MAX_ATTEMPTS @ '')'')"

text \<open>The call of \<open>self._download_json\<close>, lines 116 to 121.\<close>

definition poll_event :: "locals \<Rightarrow> nat \<Rightarrow> event" where
  "poll_event l attempt =
     DownloadJson (''https://www.canva.com/_ajax/export/'' @ export_id l) (video_id l)
       (''Polling export status (attempt '' @ str_nat attempt @ '')'')
       [(''attachment'', '''')] None"

definition video_url :: "host \<Rightarrow> json \<Rightarrow> string option" where
  "video_url h poll_data =
     py_or (traverse_fn (url_or_none h) poll_data [K ''export'', K ''output'', K ''exportBlobs'', I 0, K ''url''])
           (traverse_fn (url_or_none h) poll_data [K ''export'', K ''exportBlobs'', I 0, K ''url''])"

text \<open>Line 123: the status read from a poll response.\<close>

definition export_status :: "json \<Rightarrow> string option" where
  "export_status poll_data = traverse_str poll_data [K ''export'', K ''status'']"

text \<open>
  Lines 124 to 143, one pass of the loop body after the download: \<open>Some\<close> of what the pass
  returns or raises, \<open>None\<close> when the loop goes on.
\<close>

definition poll_status :: "host \<Rightarrow> locals \<Rightarrow> json \<Rightarrow> (error + info_dict) option" where
  "poll_status h l poll_data =
     (let status = export_status poll_data
      in if status = Some ''COMPLETE'' then
           (case video_url h poll_data of
              None \<Rightarrow> Some (Inl (ExtractorError ''Export completed but no download URL found'' False))
            | Some u \<Rightarrow>
                if u = []
                then Some (Inl (ExtractorError ''Export completed but no download URL found'' False))
                else Some (Inr \<lparr>
                  info_id = video_id l,
                  info_title = py_or (traverse_str poll_data [K ''export'', K ''output'', K ''title''])
                                     (title l),
                  info_url = u,
                  info_ext = ''mp4'',
                  info_thumbnail = thumbnail l,
                  info_width = width l,
                  info_height = height l\<rparr>))
         else if status = Some ''FAILED'' then
           Some (Inl (ExtractorError ''Canva export failed on the server side'' False))
         else None)"

text \<open>Lines 116 to 121: the poll request of one attempt, its response parsed.\<close>

definition poll_json :: "host \<Rightarrow> nat \<Rightarrow> error + json" where
  "poll_json h attempt = download_json h strip_json_hijack (poll_reply h attempt)"

text \<open>One pass of the loop body: an error raised by the download ends the loop as well.\<close>

definition poll_attempt :: "host \<Rightarrow> locals \<Rightarrow> nat \<Rightarrow> (error + info_dict) option" where
  "poll_attempt h l attempt =
     (case poll_json h attempt of
        Inl e \<Rightarrow> Some (Inl e)
      | Inr poll_data \<Rightarrow> poll_status h l poll_data)"

text \<open>
  Lines 112 to 146: the loop over \<open>range(1, self._POLLING_MAX_ATTEMPTS + 1)\<close>, given as the
  list of attempts still to run, and the \<open>raise\<close> after it.
\<close>

fun poll_loop :: "host \<Rightarrow> locals \<Rightarrow> nat list \<Rightarrow> (error + info_dict) \<times> event list" where
  "poll_loop h l [] = (Inl (ExtractorError timeout_message False), [])"
| "poll_loop h l (attempt # attempts) =
     (case poll_attempt h l attempt of
        Some r \<Rightarrow> (r, [sleep_event l attempt, poll_event l attempt])
      | None \<Rightarrow>
          (case poll_loop h l attempts of
             (r, evs) \<Rightarrow> (r, sleep_event l attempt # poll_event l attempt # evs)))"

text \<open>The call of \<open>self._download_webpage\<close>, line 54.\<close>

definition webpage_event :: "string \<Rightarrow> string \<Rightarrow> event" where
  "webpage_event url vid = DownloadWebpage url vid"

text \<open>The call of \<open>self._download_json\<close>, lines 74 to 106.\<close>

definition export_event :: "string \<Rightarrow> string \<Rightarrow> int option \<times> int option \<Rightarrow> event" where
  "export_event vid token dims =
     DownloadJson ''https://www.canva.com/_ajax/export'' vid ''Initiating video export''
       [(''version'', ''2''), (''inline'', ''false'')]
       (Some (export_request vid token (fst dims) (snd dims)))"

text \<open>Lines 62 to 71 and 108: the local variables once the export identifier is known.\<close>

definition page_locals :: "host \<Rightarrow> string \<Rightarrow> string \<Rightarrow> string \<Rightarrow> locals" where
  "page_locals h vid webpage eid =
     \<lparr>video_id = vid,
      title = py_or (og_search_title h webpage) (html_extract_title h webpage),
      thumbnail = og_search_thumbnail h webpage,
      width = fst (dimensions webpage),
      height = snd (dimensions webpage),
      export_id = eid\<rparr>"

definition real_extract :: "host \<Rightarrow> string \<Rightarrow> (error + info_dict) \<times> event list" where
  "real_extract h url =
     (case match_valid_url url of
        None \<Rightarrow> (Inl AttributeError, [])
      | Some (vid, token) \<Rightarrow>
          (case webpage_reply h of
             Inl e \<Rightarrow> (Inl e, [webpage_event url vid])
           | Inr webpage \<Rightarrow>
               if contains ''permission'' (lower webpage) \<or> contains ''Request access'' webpage
               then (Inl (ExtractorError permission_message True), [webpage_event url vid])
               else
                 (let evs = [webpage_event url vid, export_event vid token (dimensions webpage)]
                  in case download_json h strip_json_hijack (export_reply h) of
                       Inl e \<Rightarrow> (Inl e, evs)
                     | Inr export_data \<Rightarrow>
                         (case traverse_str export_data [K ''export'', K ''exportIdentifier''] of
                            None \<Rightarrow>
                              (Inl (ExtractorError ''Failed to get export identifier from Canva API'' False),
                               evs)
                          | Some eid \<Rightarrow>
                              if eid = []
                              then (Inl (ExtractorError ''Failed to get export identifier from Canva API'' False),
                                    evs)
                              else
                                (case poll_loop h (page_locals h vid webpage eid)
                                        [1 ..< POLLING_MAX_ATTEMPTS + 1] of
                                   (r, pevs) \<Rightarrow> (r, evs @ pevs))))))"

section \<open>Notions used to state the properties\<close>

text \<open>
  The first two phases went through: the URL has the expected shape, the page was fetched and
  holds neither access marker, and the export-initiation response parsed and carries the
  non-empty identifier \<open>eid\<close>.
\<close>

definition export_started :: "host \<Rightarrow> string \<Rightarrow> string \<Rightarrow> string \<Rightarrow> string \<Rightarrow> string \<Rightarrow> bool" where
  "export_started h url vid token webpage eid \<longleftrightarrow>
     match_valid_url url = Some (vid, token) \<and>
     webpage_reply h = Inr webpage \<and>
     \<not> contains ''permission'' (lower webpage) \<and>
     \<not> contains ''Request access'' webpage \<and>
     (case download_json h strip_json_hijack (export_reply h) of
        Inl e \<Rightarrow> False
      | Inr export_data \<Rightarrow>
          traverse_str export_data [K ''export'', K ''exportIdentifier''] = Some eid) \<and>
     eid \<noteq> []"

text \<open>What the first two phases do to the outside: one page fetch, one export-initiation request.\<close>

definition start_events :: "string \<Rightarrow> string \<Rightarrow> string \<Rightarrow> string \<Rightarrow> event list" where
  "start_events url vid token webpage =
     [webpage_event url vid, export_event vid token (dimensions webpage)]"

text \<open>The delay-then-fetch cycles of the given attempts, the delay of each before its fetch.\<close>

definition cycles :: "locals \<Rightarrow> nat list \<Rightarrow> event list" where
  "cycles l attempts = concat (map (\<lambda>a. [sleep_event l a, poll_event l a]) attempts)"

text \<open>The response to the poll of an attempt parsed, and its status is neither terminal one.\<close>

definition pending :: "host \<Rightarrow> nat \<Rightarrow> bool" where
  "pending h a =
     (case poll_json h a of
        Inl e \<Rightarrow> False
      | Inr poll_data \<Rightarrow>
          export_status poll_data \<noteq> Some ''COMPLETE'' \<and> export_status poll_data \<noteq> Some ''FAILED'')"

text \<open>
  \<open>int\<close> of a \<open>float\<close>: no integer for \<open>inf\<close>; for the finite float \<open>m * 2 ^ x\<close> with
  \<open>0 \<le> m\<close> the integer \<open>n\<close> with \<open>n \<le> m * 2 ^ x < n + 1\<close>, written without fractions.
\<close>

definition coerced :: "pyfloat \<Rightarrow> int option \<Rightarrow> bool" where
  "coerced f r =
     (case f of
        Infinity \<Rightarrow> r = None
      | Finite m x \<Rightarrow>
          (case r of
             None \<Rightarrow> False
           | Some n \<Rightarrow>
               0 \<le> m \<and>
               (if 0 \<le> x then n = m * 2 ^ nat x
                else n * 2 ^ nat (- x) \<le> m \<and> m < (n + 1) * 2 ^ nat (- x))))"

section \<open>Example inputs\<close>

definition example_url :: string where
  "example_url = ''https://www.canva.com/design/DAHCj8E06us/zCnY6t5K6kLGjZbF_ip0Jg/watch''"

definition example_page :: string where
  "example_page =
     ''<html><title>Untitled design</title><script>{\"C\":{\"A\":1280.0,\"B\":720.0,\"C\":\"D\"}}</script></html>''"

definition export_json :: "(string \<times> json) list \<Rightarrow> json" where
  "export_json kvs = JObject [(''export'', JObject kvs)]"

text \<open>A stand-in for \<open>json.loads\<close> that knows the response bodies of the examples.\<close>

definition example_loads :: "string \<Rightarrow> json option" where
  "example_loads s =
     map_of [
       (''{\"export\":{\"exportIdentifier\":\"E1\"}}'',
        export_json [(''exportIdentifier'', JString ''E1'')]),
       (''{\"export\":{\"exportIdentifier\":null}}'',
        export_json [(''exportIdentifier'', JNull)]),
       (''{\"export\":{\"status\":\"PENDING\"}}'',
        export_json [(''status'', JString ''PENDING'')]),
       (''{\"export\":{\"status\":\"FAILED\"}}'',
        export_json [(''status'', JString ''FAILED'')]),
       (''{\"export\":{\"status\":\"COMPLETE\"}}'',
        export_json [(''status'', JString ''COMPLETE'')]),
       (''{\"export\":{\"status\":\"COMPLETE\",\"output\":{\"exportBlobs\":[{\"url\":\"https://e/v.mp4\"}]}}}'',
        export_json [(''status'', JString ''COMPLETE''),
                     (''output'', JObject [(''exportBlobs'',
                        JArray [JObject [(''url'', JString ''https://e/v.mp4'')]])])]),
       (''{\"export\":{\"status\":\"COMPLETE\",\"exportBlobs\":[{\"url\":\"https://e/b.mp4\"}]}}'',
        export_json [(''status'', JString ''COMPLETE''),
                     (''exportBlobs'', JArray [JObject [(''url'', JString ''https://e/b.mp4'')]])]),
       (''{\"export\":{\"status\":\"COMPLETE\",\"output\":{\"exportBlobs\":[{\"url\":\"https://e/v.mp4\"}]},\"exportBlobs\":[{\"url\":\"https://e/b.mp4\"}]}}'',
        export_json [(''status'', JString ''COMPLETE''),
                     (''output'', JObject [(''exportBlobs'',
                        JArray [JObject [(''url'', JString ''https://e/v.mp4'')]])]),
                     (''exportBlobs'', JArray [JObject [(''url'', JString ''https://e/b.mp4'')]])]),
       (''{\"export\":{\"status\":\"COMPLETE\",\"output\":{\"exportBlobs\":[{\"url\":\"no url\"}]},\"exportBlobs\":[{\"url\":\"https://e/b.mp4\"}]}}'',
        export_json [(''status'', JString ''COMPLETE''),
                     (''output'', JObject [(''exportBlobs'',
                        JArray [JObject [(''url'', JString ''no url'')]])]),
                     (''exportBlobs'', JArray [JObject [(''url'', JString ''https://e/b.mp4'')]])])] s"

definition example_url_or_none :: "json \<Rightarrow> string option" where
  "example_url_or_none v =
     (case v of JString s \<Rightarrow> if prefix ''https://'' s then Some s else None | _ \<Rightarrow> None)"

text \<open>A host that serves the given page and answers the polls from the given script.\<close>

definition example_host :: "string \<Rightarrow> string \<Rightarrow> (nat \<Rightarrow> error + string) \<Rightarrow> host" where
  "example_host page export_text script =
     \<lparr>webpage_reply = Inr page,
      export_reply = Inr export_text,
      poll_reply = script,
      json_loads = example_loads,
      og_search_title = (\<lambda>w. None),
      html_extract_title = (\<lambda>w. Some ''Untitled design''),
      og_search_thumbnail = (\<lambda>w. Some ''https://e/screen''),
      url_or_none = example_url_or_none\<rparr>"

definition started_text :: string where
  "started_text = ''while(1);</x>//{\"export\":{\"exportIdentifier\":\"E1\"}}''"

definition pending_text :: string where
  "pending_text = ''while(1);</x>//{\"export\":{\"status\":\"PENDING\"}}''"

definition failed_text :: string where
  "failed_text = ''while(1);</x>//{\"export\":{\"status\":\"FAILED\"}}''"

definition complete_text :: string where
  "complete_text =
     ''while(1);</x>//{\"export\":{\"status\":\"COMPLETE\",\"output\":{\"exportBlobs\":[{\"url\":\"https://e/v.mp4\"}]}}}''"

definition complete_no_url_text :: string where
  "complete_no_url_text = ''while(1);</x>//{\"export\":{\"status\":\"COMPLETE\"}}''"

definition null_id_text :: string where
  "null_id_text = ''while(1);</x>//{\"export\":{\"exportIdentifier\":null}}''"

definition always_pending :: "nat \<Rightarrow> error + string" where
  "always_pending a = Inr pending_text"

definition always_failed :: "nat \<Rightarrow> error + string" where
  "always_failed a = Inr failed_text"

definition third_complete :: "nat \<Rightarrow> error + string" where
  "third_complete a = (if a < 3 then Inr pending_text else Inr complete_text)"

definition third_complete_no_url :: "nat \<Rightarrow> error + string" where
  "third_complete_no_url a = (if a < 3 then Inr pending_text else Inr complete_no_url_text)"

definition example_id :: string where
  "example_id = ''DAHCj8E06us''"

definition example_token :: string where
  "example_token = ''zCnY6t5K6kLGjZbF_ip0Jg''"

definition complete_fallback_text :: string where
  "complete_fallback_text =
     ''while(1);</x>//{\"export\":{\"status\":\"COMPLETE\",\"exportBlobs\":[{\"url\":\"https://e/b.mp4\"}]}}''"

definition complete_both_text :: string where
  "complete_both_text =
     ''while(1);</x>//{\"export\":{\"status\":\"COMPLETE\",\"output\":{\"exportBlobs\":[{\"url\":\"https://e/v.mp4\"}]},\"exportBlobs\":[{\"url\":\"https://e/b.mp4\"}]}}''"

definition complete_bad_first_text :: string where
  "complete_bad_first_text =
     ''while(1);</x>//{\"export\":{\"status\":\"COMPLETE\",\"output\":{\"exportBlobs\":[{\"url\":\"no url\"}]},\"exportBlobs\":[{\"url\":\"https://e/b.mp4\"}]}}''"

definition third_complete_fallback :: "nat \<Rightarrow> error + string" where
  "third_complete_fallback a = (if a < 3 then Inr pending_text else Inr complete_fallback_text)"

definition third_complete_both :: "nat \<Rightarrow> error + string" where
  "third_complete_both a = (if a < 3 then Inr pending_text else Inr complete_both_text)"

definition third_complete_bad_first :: "nat \<Rightarrow> error + string" where
  "third_complete_bad_first a = (if a < 3 then Inr pending_text else Inr complete_bad_first_text)"

definition first_json :: json where
  "first_json =
     export_json [(''status'', JString ''COMPLETE''),
                  (''output'', JObject [(''exportBlobs'',
                     JArray [JObject [(''url'', JString ''https://e/v.mp4'')]])])]"

definition fallback_json :: json where
  "fallback_json =
     export_json [(''status'', JString ''COMPLETE''),
                  (''exportBlobs'', JArray [JObject [(''url'', JString ''https://e/b.mp4'')]])]"

definition both_json :: json where
  "both_json =
     export_json [(''status'', JString ''COMPLETE''),
                  (''output'', JObject [(''exportBlobs'',
                     JArray [JObject [(''url'', JString ''https://e/v.mp4'')]])]),
                  (''exportBlobs'', JArray [JObject [(''url'', JString ''https://e/b.mp4'')]])]"

definition bad_first_json :: json where
  "bad_first_json =
     export_json [(''status'', JString ''COMPLETE''),
                  (''output'', JObject [(''exportBlobs'',
                     JArray [JObject [(''url'', JString ''no url'')]])]),
                  (''exportBlobs'', JArray [JObject [(''url'', JString ''https://e/b.mp4'')]])]"

text \<open>The result of the examples that complete, with the given URL.\<close>

definition example_info :: "string \<Rightarrow> info_dict" where
  "example_info u =
     \<lparr>info_id = example_id,
      info_title = Some ''Untitled design'',
      info_url = u,
      info_ext = ''mp4'',
      info_thumbnail = Some ''https://e/screen'',
      info_width = Some 1280,
      info_height = Some 720\<rparr>"

text \<open>
  A run of the example that starts the export, finds the polls 1 and 2 pending and gets the
  response \<open>j\<close> with status \<open>COMPLETE\<close> at poll 3: it ends with \<open>r\<close> after the cycle of
  attempt 3.
\<close>

definition third_run :: "(nat \<Rightarrow> error + string) \<Rightarrow> json \<Rightarrow> error + info_dict \<Rightarrow> bool" where
  "third_run script j r \<longleftrightarrow>
     export_started (example_host example_page started_text script) example_url
       example_id example_token example_page ''E1'' \<and>
     pending (example_host example_page started_text script) 1 \<and>
     pending (example_host example_page started_text script) 2 \<and>
     poll_json (example_host example_page started_text script) 3 = Inr j \<and>
     export_status j = Some ''COMPLETE'' \<and>
     real_extract (example_host example_page started_text script) example_url =
       (r, start_events example_url example_id example_token example_page @
           cycles (page_locals (example_host example_page started_text script)
                     example_id example_page ''E1'') [1, 2, 3])"

text \<open>A page whose first dimension field is 310 nines, more than any finite \<open>float\<close>.\<close>

definition huge_page :: string where
  "huge_page = ''{\"C\":{\"A\":'' @ replicate 310 CHR ''9'' @ '',\"B\":720.0,\"C\":\"D\"}}''"

section \<open>The matcher against the language of a pattern\<close>

lemma class_splits:
  "(s = t @ rest \<and> (\<forall>c \<in> set t. P c)) \<longleftrightarrow>
   (length t \<le> length (takeWhile P s) \<and> t = take (length t) s \<and> rest = drop (length t) s)"
proof
  assume a: "s = t @ rest \<and> (\<forall>c \<in> set t. P c)"
  then have "takeWhile P s = t @ takeWhile P rest" by (simp add: takeWhile_append2)
  with a show "length t \<le> length (takeWhile P s) \<and> t = take (length t) s \<and> rest = drop (length t) s"
    by simp
next
  assume a: "length t \<le> length (takeWhile P s) \<and> t = take (length t) s \<and> rest = drop (length t) s"
  then have "s = t @ rest" by (metis append_take_drop_id)
  moreover have "take (length t) s = take (length t) (takeWhile P s @ dropWhile P s)" by simp
  then have "take (length t) s = take (length t) (takeWhile P s)" using a by (simp del: takeWhile_dropWhile_id)
  with a have "t = take (length t) (takeWhile P s)" by simp
  then have "set t \<subseteq> set (takeWhile P s)" by (metis set_take_subset)
  then have "\<forall>c \<in> set t. P c" by (auto dest: set_takeWhileD)
  ultimately show "s = t @ rest \<and> (\<forall>c \<in> set t. P c)" by simp
qed

lemma set_split_at:
  "set (map (split_at s) [a ..< Suc k]) = {(take n s, drop n s) | n. a \<le> n \<and> n \<le> k}"
  by (auto simp: split_at_def less_Suc_eq_le image_iff)

lemma star_splits:
  "set (map (split_at s) [0 ..< Suc (length (takeWhile P s))]) =
   {(t, rest). s = t @ rest \<and> (\<forall>c \<in> set t. P c)}"
proof -
  have le: "length (takeWhile P s) \<le> length s" by (rule length_takeWhile_le)
  have "{(take n s, drop n s) | n. 0 \<le> n \<and> n \<le> length (takeWhile P s)} =
        {(t, rest). s = t @ rest \<and> (\<forall>c \<in> set t. P c)}" (is "?A = ?B")
  proof (intro set_eqI iffI)
    fix x assume "x \<in> ?A"
    then obtain n where n: "n \<le> length (takeWhile P s)" "x = (take n s, drop n s)" by blast
    with le have "length (take n s) = n" by simp
    with n show "x \<in> ?B"
      using class_splits[of s "take n s" "drop n s" P] by simp
  next
    fix x assume "x \<in> ?B"
    then obtain t rest where x: "x = (t, rest)" "s = t @ rest" "\<forall>c \<in> set t. P c" by blast
    then have "length t \<le> length (takeWhile P s) \<and> t = take (length t) s \<and> rest = drop (length t) s"
      using class_splits[of s t rest P] by blast
    with x(1) show "x \<in> ?A" by blast
  qed
  then show ?thesis by (simp only: set_split_at)
qed

lemma plus_splits:
  "set (map (split_at s) [1 ..< Suc (length (takeWhile P s))]) =
   {(t, rest). s = t @ rest \<and> t \<noteq> [] \<and> (\<forall>c \<in> set t. P c)}"
proof -
  have le: "length (takeWhile P s) \<le> length s" by (rule length_takeWhile_le)
  have "{(take n s, drop n s) | n. 1 \<le> n \<and> n \<le> length (takeWhile P s)} =
        {(t, rest). s = t @ rest \<and> t \<noteq> [] \<and> (\<forall>c \<in> set t. P c)}" (is "?A = ?B")
  proof (intro set_eqI iffI)
    fix x assume "x \<in> ?A"
    then obtain n where n: "1 \<le> n" "n \<le> length (takeWhile P s)" "x = (take n s, drop n s)" by blast
    with le have len: "length (take n s) = n" by simp
    with n(1) have "take n s \<noteq> []" by auto
    with n len show "x \<in> ?B"
      using class_splits[of s "take n s" "drop n s" P] by simp
  next
    fix x assume "x \<in> ?B"
    then obtain t rest where x: "x = (t, rest)" "s = t @ rest" "t \<noteq> []" "\<forall>c \<in> set t. P c" by blast
    then have "length t \<le> length (takeWhile P s) \<and> t = take (length t) s \<and> rest = drop (length t) s"
      using class_splits[of s t rest P] by blast
    moreover from x(3) have "1 \<le> length t" by (cases t) auto
    ultimately show "x \<in> ?A" using x(1) by blast
  qed
  then show ?thesis by (simp only: set_split_at)
qed

text \<open>The matcher finds exactly the prefixes that belong to the language.\<close>

lemma ms_lang: "set (ms r s) = {(t, rest). s = t @ rest \<and> t \<in> lang r}"
proof (induction r arbitrary: s)
  case (Lit l)
  show ?case by (auto simp: prefix_def)
next
  case (Star P)
  show ?case using star_splits[of s P] by simp
next
  case (LazyStar P)
  show ?case using star_splits[of s P] by simp
next
  case (Plus P)
  show ?case using plus_splits[of s P] by simp
next
  case (Opt r)
  then show ?case by auto
next
  case (Alt r1 r2)
  then show ?case by auto
next
  case (Seq r1 r2)
  then show ?case by fastforce
qed

lemma ms_empty_iff: "ms r s = [] \<longleftrightarrow> \<not> (\<exists>t rest. s = t @ rest \<and> t \<in> lang r)"
proof -
  have "ms r s = [] \<longleftrightarrow> set (ms r s) = {}" by simp
  also have "\<dots> \<longleftrightarrow> \<not> (\<exists>t rest. s = t @ rest \<and> t \<in> lang r)"
    unfolding ms_lang by auto
  finally show ?thesis .
qed

lemma ms_hd_sound: "ms r s = (t, rest) # others \<Longrightarrow> s = t @ rest \<and> t \<in> lang r"
proof -
  assume "ms r s = (t, rest) # others"
  then have "(t, rest) \<in> set (ms r s)" by simp
  then show ?thesis unfolding ms_lang by simp
qed

text \<open>The first element of a concatenation comes from the first part that is not empty.\<close>

lemma concat_map_first:
  "concat (map f xs) = y # ys \<Longrightarrow>
   \<exists>n zs. n < length xs \<and> f (xs ! n) = y # zs \<and> (\<forall>j < n. f (xs ! j) = [])"
proof (induction xs)
  case Nil
  then show ?case by simp
next
  case (Cons x xs)
  show ?case
  proof (cases "f x")
    case Nil
    with Cons.prems have "concat (map f xs) = y # ys" by simp
    from Cons.IH[OF this] obtain n zs where
      n: "n < length xs" "f (xs ! n) = y # zs" "\<forall>j < n. f (xs ! j) = []" by blast
    have "\<forall>j < Suc n. f ((x # xs) ! j) = []"
    proof (intro allI impI)
      fix j assume "j < Suc n"
      then show "f ((x # xs) ! j) = []" using Nil n(3) by (cases j) auto
    qed
    with n(1,2) show ?thesis by (intro exI[of _ "Suc n"] exI[of _ zs]) simp
  next
    case (Cons a as)
    with Cons.prems have "f x = y # as" by simp
    then show ?thesis by (intro exI[of _ 0] exI[of _ as]) simp
  qed
qed

lemma concat_upt_first:
  assumes "concat (map f [0 ..< b]) = y # ys"
  shows "\<exists>n zs. n < b \<and> f n = y # zs \<and> (\<forall>j < n. f j = [])"
proof -
  from concat_map_first[OF assms] obtain n zs where
    n: "n < length [0 ..< b]" "f ([0 ..< b] ! n) = y # zs" "\<forall>j < n. f ([0 ..< b] ! j) = []"
    by blast
  from n(1) have nb: "n < b" by simp
  with n(2) have fn: "f n = y # zs" by simp
  have "\<forall>j < n. f j = []"
  proof (intro allI impI)
    fix j assume j: "j < n"
    with n(3) have "f ([0 ..< b] ! j) = []" by blast
    moreover from j nb have "[0 ..< b] ! j = j" by simp
    ultimately show "f j = []" by simp
  qed
  with nb fn show ?thesis by blast
qed

text \<open>A lazy star in front of a pattern: the first match starts at the least possible offset.\<close>

lemma ms_lazy_unfold:
  "ms (Seq (LazyStar P) g) s =
   concat (map (\<lambda>n. map (\<lambda>(t', rest'). (take n s @ t', rest')) (ms g (drop n s)))
               [0 ..< Suc (length (takeWhile P s))])"
  by (simp add: split_at_def comp_def del: upt_Suc)

lemma ms_lazy_first:
  assumes "ms (Seq (LazyStar P) g) s = (t, rest) # others"
  shows "\<exists>n tok. n \<le> length (takeWhile P s) \<and> t = take n s @ tok \<and> drop n s = tok @ rest \<and>
           tok \<in> lang g \<and> (\<forall>j < n. ms g (drop j s) = [])"
proof -
  define f where "f = (\<lambda>n. map (\<lambda>(t', rest'). (take n s @ t', rest')) (ms g (drop n s)))"
  from assms have "concat (map f [0 ..< Suc (length (takeWhile P s))]) = (t, rest) # others"
    unfolding f_def ms_lazy_unfold .
  from concat_upt_first[OF this] obtain n zs where
    n: "n < Suc (length (takeWhile P s))" "f n = (t, rest) # zs" "\<forall>j < n. f j = []" by blast
  from n(2) obtain tok others' where
    tok: "ms g (drop n s) = (tok, rest) # others'" "t = take n s @ tok"
    unfolding f_def by (cases "ms g (drop n s)") auto
  from ms_hd_sound[OF tok(1)] have d: "drop n s = tok @ rest" "tok \<in> lang g" by simp_all
  have "\<forall>j < n. ms g (drop j s) = []"
  proof (intro allI impI)
    fix j assume "j < n"
    with n(3) have "f j = []" by blast
    then show "ms g (drop j s) = []" unfolding f_def by simp
  qed
  moreover from n(1) have "n \<le> length (takeWhile P s)" by simp
  ultimately show ?thesis using tok(2) d by blast
qed

section \<open>The hijack-strip transform\<close>

lemma strip_no_match: "ms JSON_HIJACK_RE data = [] \<Longrightarrow> strip_json_hijack data = data"
  by (simp add: strip_json_hijack_def re_sub_bol_def)

lemma strip_match: "ms JSON_HIJACK_RE data = (t, rest) # others \<Longrightarrow> strip_json_hijack data = rest"
  by (simp add: strip_json_hijack_def re_sub_bol_def)

lemma lang_hijack:
  "t \<in> lang JSON_HIJACK_RE \<longleftrightarrow>
   (\<exists>p tok. t = p @ tok \<and> CHR 0x0A \<notin> set p \<and> tok \<in> lang GUARD_RE)"
  by (auto simp: JSON_HIJACK_RE_def not_newline_def)

lemma hijack_no_match_iff:
  "ms JSON_HIJACK_RE data = [] \<longleftrightarrow>
   \<not> (\<exists>p tok rest. data = p @ tok @ rest \<and> CHR 0x0A \<notin> set p \<and> tok \<in> lang GUARD_RE)"
proof -
  have "(\<exists>t rest. data = t @ rest \<and> t \<in> lang JSON_HIJACK_RE) \<longleftrightarrow>
        (\<exists>p tok rest. data = p @ tok @ rest \<and> CHR 0x0A \<notin> set p \<and> tok \<in> lang GUARD_RE)"
  proof
    assume "\<exists>t rest. data = t @ rest \<and> t \<in> lang JSON_HIJACK_RE"
    then obtain t rest where "data = t @ rest" "t \<in> lang JSON_HIJACK_RE" by blast
    moreover then obtain p tok where "t = p @ tok" "CHR 0x0A \<notin> set p" "tok \<in> lang GUARD_RE"
      unfolding lang_hijack by blast
    ultimately have "data = p @ tok @ rest \<and> CHR 0x0A \<notin> set p \<and> tok \<in> lang GUARD_RE" by simp
    then show "\<exists>p tok rest. data = p @ tok @ rest \<and> CHR 0x0A \<notin> set p \<and> tok \<in> lang GUARD_RE"
      by blast
  next
    assume "\<exists>p tok rest. data = p @ tok @ rest \<and> CHR 0x0A \<notin> set p \<and> tok \<in> lang GUARD_RE"
    then obtain p tok rest where
      "data = p @ tok @ rest" "CHR 0x0A \<notin> set p" "tok \<in> lang GUARD_RE" by blast
    then have "data = (p @ tok) @ rest \<and> p @ tok \<in> lang JSON_HIJACK_RE"
      unfolding lang_hijack by auto
    then show "\<exists>t rest. data = t @ rest \<and> t \<in> lang JSON_HIJACK_RE" by blast
  qed
  then show ?thesis by (simp only: ms_empty_iff)
qed

text \<open>
  C4. The transform turns \<open>while (1)     ;    </x>//{"a":1}\<close> into \<open>{"a":1}\<close>, and it
  returns its input unchanged whenever no text of the guard pattern
  \<open>while\s*\(\s*1\s*\)\s*;\s*</x>//\<close> occurs anywhere in the input.
\<close>

theorem strip_json_hijack_example_and_no_guard:
  "strip_json_hijack ''while (1)     ;    </x>//{\"a\":1}'' = ''{\"a\":1}'' \<and>
   (\<not> (\<exists>p tok rest. data = p @ tok @ rest \<and> tok \<in> lang GUARD_RE) \<longrightarrow>
      strip_json_hijack data = data)"
proof
  show "strip_json_hijack ''while (1)     ;    </x>//{\"a\":1}'' = ''{\"a\":1}''"
    by code_simp
next
  show "\<not> (\<exists>p tok rest. data = p @ tok @ rest \<and> tok \<in> lang GUARD_RE) \<longrightarrow>
          strip_json_hijack data = data"
  proof
    assume "\<not> (\<exists>p tok rest. data = p @ tok @ rest \<and> tok \<in> lang GUARD_RE)"
    then have "\<not> (\<exists>p tok rest. data = p @ tok @ rest \<and> CHR 0x0A \<notin> set p \<and> tok \<in> lang GUARD_RE)"
      by blast
    then have "ms JSON_HIJACK_RE data = []" using hijack_no_match_iff[of data] by blast
    then show "strip_json_hijack data = data" by (rule strip_no_match)
  qed
qed

text \<open>Whether a text of the language of \<open>r\<close> occurs in \<open>s\<close>, decided by running the matcher.\<close>

lemma occurs_iff_suffixes:
  "(\<exists>p tok rest. s = p @ tok @ rest \<and> tok \<in> lang r) \<longleftrightarrow> list_ex (\<lambda>t. ms r t \<noteq> []) (suffixes s)"
proof
  assume "\<exists>p tok rest. s = p @ tok @ rest \<and> tok \<in> lang r"
  then obtain p tok rest where s: "s = p @ tok @ rest" "tok \<in> lang r" by blast
  then have "ms r (tok @ rest) \<noteq> []" unfolding ms_empty_iff by blast
  moreover from s(1) have "tok @ rest \<in> set (suffixes s)" by (simp add: suffix_def)
  ultimately show "list_ex (\<lambda>t. ms r t \<noteq> []) (suffixes s)" unfolding list_ex_iff by blast
next
  assume "list_ex (\<lambda>t. ms r t \<noteq> []) (suffixes s)"
  then obtain t where t: "suffix t s" "ms r t \<noteq> []" unfolding list_ex_iff by auto
  from t(2) obtain tok rest where "t = tok @ rest" "tok \<in> lang r" unfolding ms_empty_iff by blast
  moreover from t(1) obtain p where "s = p @ t" unfolding suffix_def by blast
  ultimately have "s = p @ tok @ rest \<and> tok \<in> lang r" by simp
  then show "\<exists>p tok rest. s = p @ tok @ rest \<and> tok \<in> lang r" by blast
qed

theorem strip_json_hijack_example_and_no_guard_witness:
  "\<not> (\<exists>p tok rest. ''{\"a\":1}'' = p @ tok @ rest \<and> tok \<in> lang GUARD_RE) \<and>
   strip_json_hijack ''{\"a\":1}'' = ''{\"a\":1}''"
proof -
  have "\<not> list_ex (\<lambda>t. ms GUARD_RE t \<noteq> []) (suffixes ''{\"a\":1}'')" by code_simp
  then have h: "\<not> (\<exists>p tok rest. ''{\"a\":1}'' = p @ tok @ rest \<and> tok \<in> lang GUARD_RE)"
    using occurs_iff_suffixes[of "''{\"a\":1}''" GUARD_RE] by blast
  with strip_json_hijack_example_and_no_guard[of "''{\"a\":1}''"] show ?thesis by blast
qed

text \<open>
  C9. The output is a suffix of the input. When the transform changes its input, what it
  deletes is a prefix \<open>p @ tok\<close> where \<open>tok\<close> is a text of the guard pattern, \<open>p\<close> holds no newline
  and no text of the guard pattern starts earlier in the input; everything after \<open>tok\<close> is
  kept. When every text of the guard pattern in the input starts after a newline, the
  transform is the identity.
\<close>

theorem strip_json_hijack_suffix:
  "suffix (strip_json_hijack data) data \<and>
   (strip_json_hijack data \<noteq> data \<longrightarrow>
      (\<exists>p tok. data = p @ tok @ strip_json_hijack data \<and> tok \<in> lang GUARD_RE \<and>
         CHR 0x0A \<notin> set p \<and>
         (\<forall>p' tok' rest'. data = p' @ tok' @ rest' \<and> tok' \<in> lang GUARD_RE \<longrightarrow>
            length p \<le> length p'))) \<and>
   ((\<forall>p tok rest. data = p @ tok @ rest \<and> tok \<in> lang GUARD_RE \<longrightarrow> CHR 0x0A \<in> set p) \<longrightarrow>
      strip_json_hijack data = data)"
proof (intro conjI impI)
  show "suffix (strip_json_hijack data) data"
  proof (cases "ms JSON_HIJACK_RE data")
    case Nil
    then show ?thesis by (simp add: strip_no_match)
  next
    case (Cons m ms')
    obtain t rest where m: "m = (t, rest)" by (cases m)
    with Cons have c: "ms JSON_HIJACK_RE data = (t, rest) # ms'" by simp
    from ms_hd_sound[OF c] strip_match[OF c] show ?thesis by (simp add: suffix_def)
  qed
next
  assume changed: "strip_json_hijack data \<noteq> data"
  then have "ms JSON_HIJACK_RE data \<noteq> []" using strip_no_match by blast
  then obtain t rest ms' where c: "ms JSON_HIJACK_RE data = (t, rest) # ms'"
    by (cases "ms JSON_HIJACK_RE data") auto
  from strip_match[OF c] have out: "strip_json_hijack data = rest" .
  from c have "ms (Seq (LazyStar not_newline) GUARD_RE) data = (t, rest) # ms'"
    by (simp only: JSON_HIJACK_RE_def)
  from ms_lazy_first[OF this] obtain n tok where
    n: "n \<le> length (takeWhile not_newline data)" "t = take n data @ tok"
       "drop n data = tok @ rest" "tok \<in> lang GUARD_RE"
       "\<forall>j < n. ms GUARD_RE (drop j data) = []" by blast
  have len: "length (takeWhile not_newline data) \<le> length data" by (rule length_takeWhile_le)
  have split: "data = take n data @ tok @ rest" using n(3) by (metis append_take_drop_id)
  have "take n data = take n (takeWhile not_newline data @ dropWhile not_newline data)" by simp
  then have "take n data = take n (takeWhile not_newline data)"
    using n(1) by (simp del: takeWhile_dropWhile_id)
  then have "set (take n data) \<subseteq> set (takeWhile not_newline data)" by (metis set_take_subset)
  then have "\<forall>c \<in> set (take n data). not_newline c" by (auto dest: set_takeWhileD)
  then have nonl: "CHR 0x0A \<notin> set (take n data)" by (auto simp: not_newline_def)
  have first: "\<forall>p' tok' rest'. data = p' @ tok' @ rest' \<and> tok' \<in> lang GUARD_RE \<longrightarrow>
                 length (take n data) \<le> length p'"
  proof (intro allI impI)
    fix p' tok' rest' assume a: "data = p' @ tok' @ rest' \<and> tok' \<in> lang GUARD_RE"
    then have "drop (length p') data = tok' @ rest'" by simp
    with a have "ms GUARD_RE (drop (length p') data) \<noteq> []" unfolding ms_empty_iff by metis
    with n(5) have "\<not> length p' < n" by blast
    then show "length (take n data) \<le> length p'" by simp
  qed
  from split nonl first n(4) out
  show "\<exists>p tok. data = p @ tok @ strip_json_hijack data \<and> tok \<in> lang GUARD_RE \<and>
          CHR 0x0A \<notin> set p \<and>
          (\<forall>p' tok' rest'. data = p' @ tok' @ rest' \<and> tok' \<in> lang GUARD_RE \<longrightarrow>
             length p \<le> length p')"
    by (intro exI[of _ "take n data"] exI[of _ tok]) simp
next
  assume "\<forall>p tok rest. data = p @ tok @ rest \<and> tok \<in> lang GUARD_RE \<longrightarrow> CHR 0x0A \<in> set p"
  then have "\<not> (\<exists>p tok rest. data = p @ tok @ rest \<and> CHR 0x0A \<notin> set p \<and> tok \<in> lang GUARD_RE)"
    by blast
  then have "ms JSON_HIJACK_RE data = []" using hijack_no_match_iff[of data] by blast
  then show "strip_json_hijack data = data" by (rule strip_no_match)
qed

theorem strip_json_hijack_suffix_witness:
  "(strip_json_hijack ''ab while(1);</x>//{}'' \<noteq> ''ab while(1);</x>//{}'' \<and>
    (\<exists>p tok. ''ab while(1);</x>//{}'' = p @ tok @ strip_json_hijack ''ab while(1);</x>//{}'' \<and>
       tok \<in> lang GUARD_RE \<and> CHR 0x0A \<notin> set p \<and>
       (\<forall>p' tok' rest'. ''ab while(1);</x>//{}'' = p' @ tok' @ rest' \<and> tok' \<in> lang GUARD_RE \<longrightarrow>
          length p \<le> length p'))) \<and>
   (\<not> (\<exists>p tok rest. CHR 0x0A # ''while(1);</x>//{}'' = p @ tok @ rest \<and> tok \<in> lang GUARD_RE \<and>
          CHR 0x0A \<notin> set p) \<and>
    (\<exists>tok rest. ''while(1);</x>//{}'' = tok @ rest \<and> tok \<in> lang GUARD_RE) \<and>
    strip_json_hijack (CHR 0x0A # ''while(1);</x>//{}'') = CHR 0x0A # ''while(1);</x>//{}'')"
proof -
  have changed: "strip_json_hijack ''ab while(1);</x>//{}'' \<noteq> ''ab while(1);</x>//{}''"
    by code_simp
  have nomatch: "ms GUARD_RE (CHR 0x0A # ''while(1);</x>//{}'') = []" by code_simp
  have after: "\<forall>p tok rest. CHR 0x0A # ''while(1);</x>//{}'' = p @ tok @ rest \<and> tok \<in> lang GUARD_RE \<longrightarrow>
                 CHR 0x0A \<in> set p"
  proof (intro allI impI)
    fix p tok rest
    assume a: "CHR 0x0A # ''while(1);</x>//{}'' = p @ tok @ rest \<and> tok \<in> lang GUARD_RE"
    show "CHR 0x0A \<in> set p"
    proof (cases p)
      case Nil
      with a have "CHR 0x0A # ''while(1);</x>//{}'' = tok @ rest \<and> tok \<in> lang GUARD_RE" by simp
      with nomatch show ?thesis unfolding ms_empty_iff by blast
    next
      case (Cons c cs)
      with a have "c = CHR 0x0A" by simp
      with Cons show ?thesis by simp
    qed
  qed
  have "ms GUARD_RE ''while(1);</x>//{}'' \<noteq> []" by code_simp
  then have present: "\<exists>tok rest. ''while(1);</x>//{}'' = tok @ rest \<and> tok \<in> lang GUARD_RE"
    unfolding ms_empty_iff by blast
  from after have "\<not> (\<exists>p tok rest. CHR 0x0A # ''while(1);</x>//{}'' = p @ tok @ rest \<and>
                       tok \<in> lang GUARD_RE \<and> CHR 0x0A \<notin> set p)"
    by blast
  with changed after present
    strip_json_hijack_suffix[of "''ab while(1);</x>//{}''"]
    strip_json_hijack_suffix[of "CHR 0x0A # ''while(1);</x>//{}''"]
  show ?thesis by blast
qed

section \<open>The extraction\<close>

lemma contains_iff: "contains needle s \<longleftrightarrow> (\<exists>p r. s = p @ needle @ r)"
proof (induction s)
  case Nil
  show ?case by auto
next
  case (Cons c cs)
  show ?case
  proof
    assume "contains needle (c # cs)"
    then consider "prefix needle (c # cs)" | "contains needle cs" by auto
    then show "\<exists>p r. c # cs = p @ needle @ r"
    proof cases
      case 1
      then obtain r where "c # cs = needle @ r" unfolding prefix_def by blast
      then have "c # cs = [] @ needle @ r" by simp
      then show ?thesis by blast
    next
      case 2
      with Cons.IH obtain p r where "cs = p @ needle @ r" by blast
      then have "c # cs = (c # p) @ needle @ r" by simp
      then show ?thesis by blast
    qed
  next
    assume "\<exists>p r. c # cs = p @ needle @ r"
    then obtain p r where pr: "c # cs = p @ needle @ r" by blast
    show "contains needle (c # cs)"
    proof (cases p)
      case Nil
      with pr have "prefix needle (c # cs)" by (simp add: prefix_def)
      then show ?thesis by simp
    next
      case (Cons d ds)
      with pr have "cs = ds @ needle @ r" by simp
      with Cons.IH have "contains needle cs" by blast
      then show ?thesis by simp
    qed
  qed
qed

lemma contains_lower: "contains v s \<Longrightarrow> contains (lower v) (lower s)"
proof -
  assume "contains v s"
  then obtain p r where "s = p @ v @ r" unfolding contains_iff by blast
  then have "lower s = lower p @ lower v @ lower r" by (simp add: lower_def)
  then show ?thesis unfolding contains_iff by blast
qed

lemma real_extract_denied:
  assumes "match_valid_url url = Some (vid, token)"
      and "webpage_reply h = Inr webpage"
      and "contains ''permission'' (lower webpage) \<or> contains ''Request access'' webpage"
  shows "real_extract h url = (Inl (ExtractorError permission_message True), [webpage_event url vid])"
  using assms by (simp add: real_extract_def)

lemma real_extract_started:
  assumes "export_started h url vid token webpage eid"
  shows "real_extract h url =
           (case poll_loop h (page_locals h vid webpage eid) [1 ..< POLLING_MAX_ATTEMPTS + 1] of
              (r, pevs) \<Rightarrow> (r, start_events url vid token webpage @ pevs))"
proof -
  from assms obtain export_data where
    e: "download_json h strip_json_hijack (export_reply h) = Inr export_data"
       "traverse_str export_data [K ''export'', K ''exportIdentifier''] = Some eid"
    unfolding export_started_def by (auto split: sum.splits)
  from assms have rest:
    "match_valid_url url = Some (vid, token)" "webpage_reply h = Inr webpage"
    "\<not> contains ''permission'' (lower webpage)" "\<not> contains ''Request access'' webpage"
    "eid \<noteq> []"
    unfolding export_started_def by simp_all
  show ?thesis
    unfolding real_extract_def start_events_def
    by (simp add: rest e Let_def del: upt_Suc poll_loop.simps)
qed

lemma pending_attempt: "pending h a \<Longrightarrow> poll_attempt h l a = None"
  by (auto simp: pending_def poll_attempt_def poll_status_def Let_def split: sum.splits)

lemma poll_loop_pending_prefix:
  assumes "\<forall>a \<in> set pre. pending h a"
  shows "poll_loop h l (pre @ rest) =
           (fst (poll_loop h l rest), cycles l pre @ snd (poll_loop h l rest))"
  using assms
proof (induction pre)
  case Nil
  show ?case by (simp add: cycles_def)
next
  case (Cons a pre)
  then have "poll_attempt h l a = None" by (simp add: pending_attempt)
  moreover from Cons have
    "poll_loop h l (pre @ rest) = (fst (poll_loop h l rest), cycles l pre @ snd (poll_loop h l rest))"
    by simp
  ultimately show ?case by (simp add: cycles_def)
qed

lemma poll_loop_stops:
  assumes "\<forall>a \<in> set pre. pending h a" and "poll_attempt h l a = Some r"
  shows "poll_loop h l (pre @ a # rest) = (r, cycles l (pre @ [a]))"
proof -
  from assms(2) have "poll_loop h l (a # rest) = (r, [sleep_event l a, poll_event l a])" by simp
  with poll_loop_pending_prefix[OF assms(1), of l "a # rest"] show ?thesis
    by (simp add: cycles_def)
qed


lemma attempts_split:
  assumes "1 \<le> k" and "k \<le> POLLING_MAX_ATTEMPTS"
  shows "[1 ..< POLLING_MAX_ATTEMPTS + 1] = [1 ..< k] @ k # [Suc k ..< POLLING_MAX_ATTEMPTS + 1]"
proof -
  from assms have "[1 ..< POLLING_MAX_ATTEMPTS + 1] = [1 ..< k] @ [k ..< POLLING_MAX_ATTEMPTS + 1]"
    by (metis le_add1 le_trans upt_add_eq_append le_Suc_ex add.commute Suc_eq_plus1 le_SucI)
  moreover from assms have "[k ..< POLLING_MAX_ATTEMPTS + 1] = k # [Suc k ..< POLLING_MAX_ATTEMPTS + 1]"
    by (simp add: upt_rec)
  ultimately show ?thesis by simp
qed


lemma example_started:
  "export_started (example_host example_page started_text script) example_url
     example_id example_token example_page ''E1''"
proof -
  have "match_valid_url example_url = Some (example_id, example_token)" by code_simp
  moreover have "\<not> contains ''permission'' (lower example_page)" by code_simp
  moreover have "\<not> contains ''Request access'' example_page" by code_simp
  moreover have "strip_json_hijack started_text = ''{\"export\":{\"exportIdentifier\":\"E1\"}}''"
    by code_simp
  moreover have "example_loads ''{\"export\":{\"exportIdentifier\":\"E1\"}}'' =
                   Some (export_json [(''exportIdentifier'', JString ''E1'')])"
    by code_simp
  moreover have "traverse_str (export_json [(''exportIdentifier'', JString ''E1'')])
                   [K ''export'', K ''exportIdentifier''] = Some ''E1''"
    by code_simp
  ultimately show ?thesis
    by (simp add: export_started_def example_host_def download_json_def)
qed

lemma example_poll_json:
  assumes "script a = Inr text" and "example_loads (strip_json_hijack text) = Some j"
  shows "poll_json (example_host page export_text script) a = Inr j"
  using assms by (simp add: poll_json_def example_host_def download_json_def)

lemma pending_text_json:
  "example_loads (strip_json_hijack pending_text) = Some (export_json [(''status'', JString ''PENDING'')])"
  by code_simp

lemma pending_status: "export_status (export_json [(''status'', JString ''PENDING'')]) = Some ''PENDING''"
  by code_simp

lemma example_pending:
  assumes "script a = Inr pending_text"
  shows "pending (example_host page export_text script) a"
proof -
  have "poll_json (example_host page export_text script) a =
          Inr (export_json [(''status'', JString ''PENDING'')])"
    using assms pending_text_json
    by (simp add: poll_json_def example_host_def download_json_def)
  then show ?thesis by (simp add: pending_def pending_status)
qed









text \<open>
  C6. Once the export has started, if the polls before attempt \<open>k\<close> were pending and the
  response of attempt \<open>k\<close> has status \<open>COMPLETE\<close>, the URL of the result is \<open>url_or_none\<close> of
  the value at \<open>export.output.exportBlobs[0].url\<close> of the response when that is a non-empty
  text, and only else \<open>url_or_none\<close> of the value at \<open>export.exportBlobs[0].url\<close> when that is
  a non-empty text; when neither is, the extraction fails with the message "Export completed
  but no download URL found" and returns no result. In each case the cycle of attempt \<open>k\<close> is
  the last.
\<close>

theorem poll_complete_url:
  assumes "export_started h url vid token webpage eid"
      and "1 \<le> k" and "k \<le> 30"
      and "\<forall>a. 1 \<le> a \<and> a < k \<longrightarrow> pending h a"
      and "poll_json h k = Inr j" and "export_status j = Some ''COMPLETE''"
      and "first = url_or_none h
                     (traverse j [K ''export'', K ''output'', K ''exportBlobs'', I 0, K ''url''])"
      and "second = url_or_none h (traverse j [K ''export'', K ''exportBlobs'', I 0, K ''url''])"
  shows "real_extract h url =
           (case (if truthy first then first else if truthy second then second else None) of
              None \<Rightarrow> Inl (ExtractorError ''Export completed but no download URL found'' False)
            | Some u \<Rightarrow>
                Inr \<lparr>info_id = vid,
                     info_title = py_or (traverse_str j [K ''export'', K ''output'', K ''title''])
                                    (py_or (og_search_title h webpage) (html_extract_title h webpage)),
                     info_url = u,
                     info_ext = ''mp4'',
                     info_thumbnail = og_search_thumbnail h webpage,
                     info_width = fst (dimensions webpage),
                     info_height = snd (dimensions webpage)\<rparr>,
            start_events url vid token webpage @ cycles (page_locals h vid webpage eid) [1 ..< Suc k])"
proof -
  let ?l = "page_locals h vid webpage eid"
  let ?r = "case (if truthy first then first else if truthy second then second else None) of
              None \<Rightarrow> Inl (ExtractorError ''Export completed but no download URL found'' False)
            | Some u \<Rightarrow>
                Inr \<lparr>info_id = vid,
                     info_title = py_or (traverse_str j [K ''export'', K ''output'', K ''title''])
                                    (py_or (og_search_title h webpage) (html_extract_title h webpage)),
                     info_url = u,
                     info_ext = ''mp4'',
                     info_thumbnail = og_search_thumbnail h webpage,
                     info_width = fst (dimensions webpage),
                     info_height = snd (dimensions webpage)\<rparr>"
  have v: "video_url h j = py_or first second"
    by (simp add: video_url_def traverse_fn_def assms(7,8))
  have "poll_status h ?l j = Some ?r"
    unfolding poll_status_def Let_def v
    by (auto simp: assms(6) py_or_def truthy_def page_locals_def split: option.splits)
  then have att: "poll_attempt h ?l k = Some ?r"
    using assms(5) by (simp add: poll_attempt_def)
  have "\<forall>a \<in> set [1 ..< k]. pending h a" using assms(4) by simp
  from poll_loop_stops[OF this att, of "[Suc k ..< POLLING_MAX_ATTEMPTS + 1]"]
  have "poll_loop h ?l [1 ..< POLLING_MAX_ATTEMPTS + 1] = (?r, cycles ?l ([1 ..< k] @ [k]))"
    using attempts_split[of k] assms(2,3) by (simp add: POLLING_MAX_ATTEMPTS_def del: upt_Suc)
  moreover have "[1 ..< k] @ [k] = [1 ..< Suc k]" using assms(2) by simp
  ultimately show ?thesis
    using real_extract_started[OF assms(1)] by (simp del: upt_Suc)
qed

lemma complete_no_url_text_json:
  "example_loads (strip_json_hijack complete_no_url_text) =
     Some (export_json [(''status'', JString ''COMPLETE'')])"
  by code_simp

lemma complete_first_text_json:
  "example_loads (strip_json_hijack complete_text) = Some first_json"
  by code_simp

lemma complete_fallback_text_json:
  "example_loads (strip_json_hijack complete_fallback_text) = Some fallback_json"
  by code_simp

lemma complete_both_text_json:
  "example_loads (strip_json_hijack complete_both_text) = Some both_json"
  by code_simp

lemma complete_bad_first_text_json:
  "example_loads (strip_json_hijack complete_bad_first_text) = Some bad_first_json"
  by code_simp

text \<open>The polls 1 and 2 of a script that answers them with the pending body.\<close>

lemma pending_before_third:
  assumes "script 1 = Inr pending_text" and "script 2 = Inr pending_text"
  shows "\<forall>a. 1 \<le> a \<and> a < 3 \<longrightarrow> pending (example_host page export_text script) a"
proof (intro allI impI)
  fix a :: nat assume "1 \<le> a \<and> a < 3"
  then have "a = 1 \<or> a = 2" by auto
  with assms show "pending (example_host page export_text script) a"
    by (auto intro: example_pending)
qed

lemma example_page_dimensions: "dimensions example_page = (Some 1280, Some 720)"
  by code_simp

text \<open>
  Five responses: a URL at the first path only, at the second only, at both (the first
  wins), a text that is no URL at the first path and a URL at the second (the second is
  used), and no URL at either path (the extraction fails).
\<close>

theorem poll_complete_url_witness:
  "third_run third_complete first_json (Inr (example_info ''https://e/v.mp4'')) \<and>
   third_run third_complete_fallback fallback_json (Inr (example_info ''https://e/b.mp4'')) \<and>
   third_run third_complete_both both_json (Inr (example_info ''https://e/v.mp4'')) \<and>
   third_run third_complete_bad_first bad_first_json (Inr (example_info ''https://e/b.mp4'')) \<and>
   third_run third_complete_no_url (export_json [(''status'', JString ''COMPLETE'')])
     (Inl (ExtractorError ''Export completed but no download URL found'' False))"
proof -
  let ?p1 = "[K ''export'', K ''output'', K ''exportBlobs'', I 0, K ''url'']"
  let ?p2 = "[K ''export'', K ''exportBlobs'', I 0, K ''url'']"
  let ?t = "[K ''export'', K ''output'', K ''title'']"
  have upt: "[1 ..< Suc 3] = [1, 2, 3]" by (simp add: upt_rec)
  note host = example_host_def truthy_def py_or_def example_info_def example_page_dimensions
  have first: "third_run third_complete first_json (Inr (example_info ''https://e/v.mp4''))"
  proof -
    let ?h = "example_host example_page started_text third_complete"
    have p1: "pending ?h 1" by (rule example_pending) (simp add: third_complete_def)
    have p2: "pending ?h 2" by (rule example_pending) (simp add: third_complete_def)
    have p: "\<forall>a. 1 \<le> a \<and> a < 3 \<longrightarrow> pending ?h a"
      by (rule pending_before_third) (simp_all add: third_complete_def)
    have j: "poll_json ?h 3 = Inr first_json"
      by (rule example_poll_json[OF _ complete_first_text_json]) (simp add: third_complete_def)
    have s: "export_status first_json = Some ''COMPLETE''" by code_simp
    have a: "example_url_or_none (traverse first_json ?p1) = Some ''https://e/v.mp4''" by code_simp
    have t: "traverse_str first_json ?t = None" by code_simp
    from poll_complete_url[OF example_started _ _ p j s refl refl]
    have "real_extract ?h example_url =
            (Inr (example_info ''https://e/v.mp4''),
             start_events example_url example_id example_token example_page @
             cycles (page_locals ?h example_id example_page ''E1'') [1, 2, 3])"
      using a t upt by (simp add: host del: upt_Suc)
    with example_started p1 p2 j s show ?thesis unfolding third_run_def by (intro conjI)
  qed
  have fallback:
    "third_run third_complete_fallback fallback_json (Inr (example_info ''https://e/b.mp4''))"
  proof -
    let ?h = "example_host example_page started_text third_complete_fallback"
    have p1: "pending ?h 1" by (rule example_pending) (simp add: third_complete_fallback_def)
    have p2: "pending ?h 2" by (rule example_pending) (simp add: third_complete_fallback_def)
    have p: "\<forall>a. 1 \<le> a \<and> a < 3 \<longrightarrow> pending ?h a"
      by (rule pending_before_third) (simp_all add: third_complete_fallback_def)
    have j: "poll_json ?h 3 = Inr fallback_json"
      by (rule example_poll_json[OF _ complete_fallback_text_json])
         (simp add: third_complete_fallback_def)
    have s: "export_status fallback_json = Some ''COMPLETE''" by code_simp
    have a: "example_url_or_none (traverse fallback_json ?p1) = None" by code_simp
    have b: "example_url_or_none (traverse fallback_json ?p2) = Some ''https://e/b.mp4''"
      by code_simp
    have t: "traverse_str fallback_json ?t = None" by code_simp
    from poll_complete_url[OF example_started _ _ p j s refl refl]
    have "real_extract ?h example_url =
            (Inr (example_info ''https://e/b.mp4''),
             start_events example_url example_id example_token example_page @
             cycles (page_locals ?h example_id example_page ''E1'') [1, 2, 3])"
      using a b t upt by (simp add: host del: upt_Suc)
    with example_started p1 p2 j s show ?thesis unfolding third_run_def by (intro conjI)
  qed
  have both: "third_run third_complete_both both_json (Inr (example_info ''https://e/v.mp4''))"
  proof -
    let ?h = "example_host example_page started_text third_complete_both"
    have p1: "pending ?h 1" by (rule example_pending) (simp add: third_complete_both_def)
    have p2: "pending ?h 2" by (rule example_pending) (simp add: third_complete_both_def)
    have p: "\<forall>a. 1 \<le> a \<and> a < 3 \<longrightarrow> pending ?h a"
      by (rule pending_before_third) (simp_all add: third_complete_both_def)
    have j: "poll_json ?h 3 = Inr both_json"
      by (rule example_poll_json[OF _ complete_both_text_json]) (simp add: third_complete_both_def)
    have s: "export_status both_json = Some ''COMPLETE''" by code_simp
    have a: "example_url_or_none (traverse both_json ?p1) = Some ''https://e/v.mp4''" by code_simp
    have b: "example_url_or_none (traverse both_json ?p2) = Some ''https://e/b.mp4''" by code_simp
    have t: "traverse_str both_json ?t = None" by code_simp
    from poll_complete_url[OF example_started _ _ p j s refl refl]
    have "real_extract ?h example_url =
            (Inr (example_info ''https://e/v.mp4''),
             start_events example_url example_id example_token example_page @
             cycles (page_locals ?h example_id example_page ''E1'') [1, 2, 3])"
      using a b t upt by (simp add: host del: upt_Suc)
    with example_started p1 p2 j s show ?thesis unfolding third_run_def by (intro conjI)
  qed
  have bad_first:
    "third_run third_complete_bad_first bad_first_json (Inr (example_info ''https://e/b.mp4''))"
  proof -
    let ?h = "example_host example_page started_text third_complete_bad_first"
    have p1: "pending ?h 1" by (rule example_pending) (simp add: third_complete_bad_first_def)
    have p2: "pending ?h 2" by (rule example_pending) (simp add: third_complete_bad_first_def)
    have p: "\<forall>a. 1 \<le> a \<and> a < 3 \<longrightarrow> pending ?h a"
      by (rule pending_before_third) (simp_all add: third_complete_bad_first_def)
    have j: "poll_json ?h 3 = Inr bad_first_json"
      by (rule example_poll_json[OF _ complete_bad_first_text_json])
         (simp add: third_complete_bad_first_def)
    have s: "export_status bad_first_json = Some ''COMPLETE''" by code_simp
    have v: "traverse bad_first_json ?p1 = JString ''no url''" by code_simp
    have a: "example_url_or_none (traverse bad_first_json ?p1) = None" by code_simp
    have b: "example_url_or_none (traverse bad_first_json ?p2) = Some ''https://e/b.mp4''"
      by code_simp
    have t: "traverse_str bad_first_json ?t = None" by code_simp
    from poll_complete_url[OF example_started _ _ p j s refl refl]
    have "real_extract ?h example_url =
            (Inr (example_info ''https://e/b.mp4''),
             start_events example_url example_id example_token example_page @
             cycles (page_locals ?h example_id example_page ''E1'') [1, 2, 3])"
      using a b t upt by (simp add: host del: upt_Suc)
    with example_started p1 p2 j s show ?thesis unfolding third_run_def by (intro conjI)
  qed
  have neither:
    "third_run third_complete_no_url (export_json [(''status'', JString ''COMPLETE'')])
       (Inl (ExtractorError ''Export completed but no download URL found'' False))"
  proof -
    let ?h = "example_host example_page started_text third_complete_no_url"
    let ?j = "export_json [(''status'', JString ''COMPLETE'')]"
    have p1: "pending ?h 1" by (rule example_pending) (simp add: third_complete_no_url_def)
    have p2: "pending ?h 2" by (rule example_pending) (simp add: third_complete_no_url_def)
    have p: "\<forall>a. 1 \<le> a \<and> a < 3 \<longrightarrow> pending ?h a"
      by (rule pending_before_third) (simp_all add: third_complete_no_url_def)
    have j: "poll_json ?h 3 = Inr ?j"
      by (rule example_poll_json[OF _ complete_no_url_text_json])
         (simp add: third_complete_no_url_def)
    have s: "export_status ?j = Some ''COMPLETE''" by code_simp
    have a: "example_url_or_none (traverse ?j ?p1) = None" by code_simp
    have b: "example_url_or_none (traverse ?j ?p2) = None" by code_simp
    from poll_complete_url[OF example_started _ _ p j s refl refl]
    have "real_extract ?h example_url =
            (Inl (ExtractorError ''Export completed but no download URL found'' False),
             start_events example_url example_id example_token example_page @
             cycles (page_locals ?h example_id example_page ''E1'') [1, 2, 3])"
      using a b upt by (simp add: host del: upt_Suc)
    with example_started p1 p2 j s show ?thesis unfolding third_run_def by (intro conjI)
  qed
  from first fallback both bad_first neither show ?thesis by (intro conjI)
qed

text \<open>
  C8. If the page was fetched and holds no access marker, and the export-initiation response
  parses but carries no text at \<open>export.exportIdentifier\<close>, the extraction fails with the
  message "Failed to get export identifier from Canva API"; it has made the page fetch and the
  one export-initiation request and no poll request.
\<close>

theorem export_identifier_missing:
  assumes "match_valid_url url = Some (vid, token)"
      and "webpage_reply h = Inr webpage"
      and "\<not> contains ''permission'' (lower webpage)"
      and "\<not> contains ''Request access'' webpage"
      and "download_json h strip_json_hijack (export_reply h) = Inr export_data"
      and "\<forall>s. traverse export_data [K ''export'', K ''exportIdentifier''] \<noteq> JString s"
  shows "real_extract h url =
           (Inl (ExtractorError ''Failed to get export identifier from Canva API'' False),
            [webpage_event url vid, export_event vid token (dimensions webpage)])"
proof -
  from assms(6) have "traverse_str export_data [K ''export'', K ''exportIdentifier''] = None"
    unfolding traverse_str_def
    by (cases "traverse export_data [K ''export'', K ''exportIdentifier'']") simp_all
  with assms(1-5) show ?thesis by (simp add: real_extract_def Let_def)
qed

theorem export_identifier_missing_witness:
  "match_valid_url example_url = Some (example_id, example_token) \<and>
   webpage_reply (example_host example_page null_id_text always_pending) = Inr example_page \<and>
   \<not> contains ''permission'' (lower example_page) \<and>
   \<not> contains ''Request access'' example_page \<and>
   download_json (example_host example_page null_id_text always_pending) strip_json_hijack
     (export_reply (example_host example_page null_id_text always_pending)) =
     Inr (export_json [(''exportIdentifier'', JNull)]) \<and>
   traverse (export_json [(''exportIdentifier'', JNull)]) [K ''export'', K ''exportIdentifier''] = JNull \<and>
   real_extract (example_host example_page null_id_text always_pending) example_url =
     (Inl (ExtractorError ''Failed to get export identifier from Canva API'' False),
      [webpage_event example_url example_id,
       export_event example_id example_token (dimensions example_page)])"
proof -
  let ?h = "example_host example_page null_id_text always_pending"
  have u: "match_valid_url example_url = Some (example_id, example_token)" by code_simp
  have w: "webpage_reply ?h = Inr example_page" by (simp add: example_host_def)
  have n1: "\<not> contains ''permission'' (lower example_page)" by code_simp
  have n2: "\<not> contains ''Request access'' example_page" by code_simp
  have "example_loads (strip_json_hijack null_id_text) = Some (export_json [(''exportIdentifier'', JNull)])"
    by code_simp
  then have d: "download_json ?h strip_json_hijack (export_reply ?h) =
                  Inr (export_json [(''exportIdentifier'', JNull)])"
    by (simp add: download_json_def example_host_def)
  have t: "traverse (export_json [(''exportIdentifier'', JNull)]) [K ''export'', K ''exportIdentifier''] = JNull"
    by code_simp
  then have "\<forall>s. traverse (export_json [(''exportIdentifier'', JNull)])
                    [K ''export'', K ''exportIdentifier''] \<noteq> JString s"
    by simp
  from export_identifier_missing[OF u w n1 n2 d this] u w n1 n2 d t show ?thesis by blast
qed

text \<open>
  C10. If the fetched page holds, at any place, a text whose lower-case form is \<open>permission\<close>,
  the extraction fails with the permission message, marked as expected, and the page fetch is
  all it has done: no export is initiated, whatever else the page and the host would give.
\<close>

theorem permission_anywhere_denied:
  assumes "match_valid_url url = Some (vid, token)"
      and "webpage_reply h = Inr webpage"
      and "contains v webpage" and "lower v = ''permission''"
  shows "real_extract h url =
           (Inl (ExtractorError permission_message True), [webpage_event url vid])"
proof -
  from contains_lower[OF assms(3)] assms(4) have "contains ''permission'' (lower webpage)" by simp
  with assms(1,2) show ?thesis by (simp add: real_extract_denied)
qed

theorem permission_anywhere_denied_witness:
  "match_valid_url example_url = Some (example_id, example_token) \<and>
   webpage_reply (example_host ''<title>PERMISSIONS slip</title>'' started_text third_complete) =
     Inr ''<title>PERMISSIONS slip</title>'' \<and>
   contains ''PERMISSION'' ''<title>PERMISSIONS slip</title>'' \<and>
   lower ''PERMISSION'' = ''permission'' \<and>
   real_extract (example_host ''<title>PERMISSIONS slip</title>'' started_text third_complete)
     example_url =
     (Inl (ExtractorError permission_message True), [webpage_event example_url example_id])"
proof -
  have u: "match_valid_url example_url = Some (example_id, example_token)" by code_simp
  have w: "webpage_reply (example_host ''<title>PERMISSIONS slip</title>'' started_text third_complete) =
             Inr ''<title>PERMISSIONS slip</title>''"
    by (simp add: example_host_def)
  have c: "contains ''PERMISSION'' ''<title>PERMISSIONS slip</title>''" by code_simp
  have l: "lower ''PERMISSION'' = ''permission''" by code_simp
  from permission_anywhere_denied[OF u w c l] u w c l show ?thesis by blast
qed

text \<open>
  C1, as the code has it. If the fetched page holds the text \<open>Request access\<close> written exactly
  so, or a text whose lower-case form is \<open>permission\<close>, the extraction fails with the
  permission message, marked as expected, and the page fetch is all it has done: no
  export-initiation request is issued.
\<close>

theorem access_markers_denied:
  assumes "match_valid_url url = Some (vid, token)"
      and "webpage_reply h = Inr webpage"
      and "contains ''Request access'' webpage \<or> (\<exists>v. contains v webpage \<and> lower v = ''permission'')"
  shows "real_extract h url =
           (Inl (ExtractorError permission_message True), [webpage_event url vid])"
proof -
  from assms(3) have "contains ''permission'' (lower webpage) \<or> contains ''Request access'' webpage"
    using contains_lower by fastforce
  with assms(1,2) show ?thesis by (rule real_extract_denied)
qed

theorem access_markers_denied_witness:
  "match_valid_url example_url = Some (example_id, example_token) \<and>
   webpage_reply (example_host ''<button>Request access</button>'' started_text third_complete) =
     Inr ''<button>Request access</button>'' \<and>
   contains ''Request access'' ''<button>Request access</button>'' \<and>
   real_extract (example_host ''<button>Request access</button>'' started_text third_complete)
     example_url =
     (Inl (ExtractorError permission_message True), [webpage_event example_url example_id])"
proof -
  have u: "match_valid_url example_url = Some (example_id, example_token)" by code_simp
  have w: "webpage_reply (example_host ''<button>Request access</button>'' started_text third_complete) =
             Inr ''<button>Request access</button>''"
    by (simp add: example_host_def)
  have c: "contains ''Request access'' ''<button>Request access</button>''" by code_simp
  then have "contains ''Request access'' ''<button>Request access</button>'' \<or>
             (\<exists>v. contains v ''<button>Request access</button>'' \<and> lower v = ''permission'')"
    by blast
  from access_markers_denied[OF u w this] u w c show ?thesis by blast
qed

text \<open>
  C1, as the claim has it, fails: the page \<open><button>request access</button>\<close> holds the marker
  in lower case, and the extraction goes on to the export-initiation request and the first
  poll instead of failing with the permission message.
\<close>

theorem request_access_lower_case_counterexample:
  "contains ''request access'' ''<button>request access</button>'' \<and>
   lower ''Request access'' = ''request access'' \<and>
   real_extract (example_host ''<button>request access</button>'' started_text always_failed)
     example_url =
     (Inl (ExtractorError ''Canva export failed on the server side'' False),
      [webpage_event example_url example_id,
       export_event example_id example_token (Some 1920, Some 1080),
       sleep_event (page_locals (example_host ''<button>request access</button>'' started_text
                                   always_failed)
                      example_id ''<button>request access</button>'' ''E1'') 1,
       poll_event (page_locals (example_host ''<button>request access</button>'' started_text
                                  always_failed)
                     example_id ''<button>request access</button>'' ''E1'') 1]) \<and>
   fst (real_extract (example_host ''<button>request access</button>'' started_text always_failed)
          example_url) \<noteq> Inl (ExtractorError permission_message True)"
  by code_simp

section \<open>Width and height\<close>

lemma matches_lang:
  "set (matches rs s) = {(ts, rest). s = concat ts @ rest \<and> list_all2 (\<lambda>t r. t \<in> lang r) ts rs}"
proof (induction rs arbitrary: s)
  case Nil
  show ?case by auto
next
  case (Cons r rs)
  show ?case
  proof (intro set_eqI iffI)
    fix x assume "x \<in> set (matches (r # rs) s)"
    then obtain t mid ts rest where
      x: "x = (t # ts, rest)" "(t, mid) \<in> set (ms r s)" "(ts, rest) \<in> set (matches rs mid)"
      by auto
    from x(2) have "s = t @ mid" "t \<in> lang r" unfolding ms_lang by simp_all
    moreover from x(3) have "mid = concat ts @ rest" "list_all2 (\<lambda>t r. t \<in> lang r) ts rs"
      unfolding Cons.IH by simp_all
    ultimately show "x \<in> {(ts, rest). s = concat ts @ rest \<and> list_all2 (\<lambda>t r. t \<in> lang r) ts (r # rs)}"
      using x(1) by simp
  next
    fix x assume "x \<in> {(ts, rest). s = concat ts @ rest \<and> list_all2 (\<lambda>t r. t \<in> lang r) ts (r # rs)}"
    then obtain ts' rest where
      x: "x = (ts', rest)" "s = concat ts' @ rest" "list_all2 (\<lambda>t r. t \<in> lang r) ts' (r # rs)"
      by blast
    from x(3) obtain t ts where
      ts: "ts' = t # ts" "t \<in> lang r" "list_all2 (\<lambda>t r. t \<in> lang r) ts rs"
      by (auto simp: list_all2_Cons2)
    from x(2) ts(1) have s: "s = t @ (concat ts @ rest)" by simp
    with ts(2) have "(t, concat ts @ rest) \<in> set (ms r s)" unfolding ms_lang by simp
    moreover from ts(3) have "(ts, rest) \<in> set (matches rs (concat ts @ rest))"
      unfolding Cons.IH by simp
    ultimately show "x \<in> set (matches (r # rs) s)"
      using x(1) ts(1) by force
  qed
qed

lemma lang_seqs: "lang (seqs rs) = {concat ts | ts. list_all2 (\<lambda>t r. t \<in> lang r) ts rs}"
proof (induction rs)
  case Nil
  show ?case by auto
next
  case (Cons r rs)
  show ?case
  proof (intro set_eqI iffI)
    fix x assume "x \<in> lang (seqs (r # rs))"
    then obtain u v where uv: "x = u @ v" "u \<in> lang r" "v \<in> lang (seqs rs)" by auto
    from uv(3) obtain ts where "v = concat ts" "list_all2 (\<lambda>t r. t \<in> lang r) ts rs"
      unfolding Cons.IH by blast
    with uv(1,2) have "x = concat (u # ts) \<and> list_all2 (\<lambda>t r. t \<in> lang r) (u # ts) (r # rs)"
      by simp
    then show "x \<in> {concat ts | ts. list_all2 (\<lambda>t r. t \<in> lang r) ts (r # rs)}" by blast
  next
    fix x assume "x \<in> {concat ts | ts. list_all2 (\<lambda>t r. t \<in> lang r) ts (r # rs)}"
    then obtain ts' where x: "x = concat ts'" "list_all2 (\<lambda>t r. t \<in> lang r) ts' (r # rs)" by blast
    from x(2) obtain t ts where
      ts: "ts' = t # ts" "t \<in> lang r" "list_all2 (\<lambda>t r. t \<in> lang r) ts rs"
      by (auto simp: list_all2_Cons2)
    then have "concat ts \<in> lang (seqs rs)" unfolding Cons.IH by blast
    with x(1) ts(1,2) show "x \<in> lang (seqs (r # rs))" by auto
  qed
qed

lemma re_match_None_iff:
  "re_match rs s = None \<longleftrightarrow> \<not> (\<exists>t rest. s = t @ rest \<and> t \<in> lang (seqs rs))"
proof -
  have "re_match rs s = None \<longleftrightarrow> set (matches rs s) = {}"
    by (auto simp: re_match_def split: list.splits)
  also have "\<dots> \<longleftrightarrow> \<not> (\<exists>ts rest. s = concat ts @ rest \<and> list_all2 (\<lambda>t r. t \<in> lang r) ts rs)"
    unfolding matches_lang by auto
  also have "\<dots> \<longleftrightarrow> \<not> (\<exists>t rest. s = t @ rest \<and> t \<in> lang (seqs rs))"
    unfolding lang_seqs by blast
  finally show ?thesis .
qed

lemma re_match_Some:
  assumes "re_match rs s = Some ts"
  shows "\<exists>rest. s = concat ts @ rest \<and> list_all2 (\<lambda>t r. t \<in> lang r) ts rs"
proof -
  from assms obtain rest where "(ts, rest) \<in> set (matches rs s)"
    by (auto simp: re_match_def split: list.splits)
  then show ?thesis unfolding matches_lang by blast
qed

lemma occurs_Cons:
  "(\<exists>p t rest. c # cs = p @ t @ rest \<and> t \<in> L) \<longleftrightarrow>
   (\<exists>t rest. c # cs = t @ rest \<and> t \<in> L) \<or> (\<exists>p t rest. cs = p @ t @ rest \<and> t \<in> L)"
  (is "?L \<longleftrightarrow> ?A \<or> ?B")
proof
  assume ?L
  then obtain p t rest where h: "c # cs = p @ t @ rest" "t \<in> L" by blast
  show "?A \<or> ?B"
  proof (cases p)
    case Nil
    with h have "c # cs = t @ rest \<and> t \<in> L" by simp
    then have ?A by blast
    then show ?thesis ..
  next
    case (Cons d ds)
    with h have "cs = ds @ t @ rest \<and> t \<in> L" by simp
    then have ?B by blast
    then show ?thesis ..
  qed
next
  assume "?A \<or> ?B"
  then show ?L
  proof
    assume ?A
    then obtain t rest where "c # cs = t @ rest" "t \<in> L" by blast
    then have "c # cs = [] @ t @ rest \<and> t \<in> L" by simp
    then show ?L by blast
  next
    assume ?B
    then obtain p t rest where "cs = p @ t @ rest" "t \<in> L" by blast
    then have "c # cs = (c # p) @ t @ rest \<and> t \<in> L" by simp
    then show ?L by blast
  qed
qed

lemma re_search_None_iff:
  "re_search rs s = None \<longleftrightarrow> \<not> (\<exists>p t rest. s = p @ t @ rest \<and> t \<in> lang (seqs rs))"
proof (induction s)
  case Nil
  have "re_search rs [] = None \<longleftrightarrow> \<not> (\<exists>t rest. [] = t @ rest \<and> t \<in> lang (seqs rs))"
    using re_match_None_iff[of rs "[]"] by simp
  also have "\<dots> \<longleftrightarrow> \<not> (\<exists>p t rest. [] = p @ t @ rest \<and> t \<in> lang (seqs rs))"
    by simp
  finally show ?case .
next
  case (Cons c cs)
  define A where "A \<longleftrightarrow> (\<exists>t rest. c # cs = t @ rest \<and> t \<in> lang (seqs rs))"
  define B where "B \<longleftrightarrow> (\<exists>p t rest. cs = p @ t @ rest \<and> t \<in> lang (seqs rs))"
  define C where "C \<longleftrightarrow> (\<exists>p t rest. c # cs = p @ t @ rest \<and> t \<in> lang (seqs rs))"
  have c: "C \<longleftrightarrow> A \<or> B" unfolding A_def B_def C_def by (rule occurs_Cons)
  have m: "re_match rs (c # cs) = None \<longleftrightarrow> \<not> A" unfolding A_def by (rule re_match_None_iff)
  have i: "re_search rs cs = None \<longleftrightarrow> \<not> B" unfolding B_def by (rule Cons.IH)
  have "re_search rs (c # cs) = None \<longleftrightarrow>
        re_match rs (c # cs) = None \<and> re_search rs cs = None"
    by (simp split: option.splits)
  with c m i have "re_search rs (c # cs) = None \<longleftrightarrow> \<not> C" by (simp only: de_Morgan_disj)
  then show ?case unfolding C_def .
qed

text \<open>No text of the language \<open>L\<close> starts in \<open>s\<close> before the offset \<open>n\<close>.\<close>

lemma leftmost_Nil:
  "\<forall>p' t' rest'. s = p' @ t' @ rest' \<and> t' \<in> L \<longrightarrow> length ([]::string) \<le> length p'"
  by simp

lemma leftmost_Cons:
  assumes "\<forall>p' t' rest'. cs = p' @ t' @ rest' \<and> t' \<in> L \<longrightarrow> length p \<le> length p'"
      and "\<not> (\<exists>t rest. c # cs = t @ rest \<and> t \<in> L)"
  shows "\<forall>p' t' rest'. c # cs = p' @ t' @ rest' \<and> t' \<in> L \<longrightarrow> length (c # p) \<le> length p'"
proof (intro allI impI)
  fix p' t' rest' assume a: "c # cs = p' @ t' @ rest' \<and> t' \<in> L"
  show "length (c # p) \<le> length p'"
  proof (cases p')
    case Nil
    with a have "c # cs = t' @ rest' \<and> t' \<in> L" by simp
    with assms(2) show ?thesis by blast
  next
    case (Cons d ds)
    with a have "cs = ds @ t' @ rest' \<and> t' \<in> L" by simp
    with assms(1) have "length p \<le> length ds" by blast
    with Cons show ?thesis by simp
  qed
qed

lemma re_search_Some:
  assumes "re_search rs s = Some ts"
  shows "\<exists>p rest. s = p @ concat ts @ rest \<and> list_all2 (\<lambda>t r. t \<in> lang r) ts rs \<and>
           (\<forall>p' t' rest'. s = p' @ t' @ rest' \<and> t' \<in> lang (seqs rs) \<longrightarrow> length p \<le> length p')"
proof -
  define first where
    "first = (\<lambda>s p. \<forall>p' t' rest'. s = p' @ t' @ rest' \<and> t' \<in> lang (seqs rs) \<longrightarrow>
                      length (p::string) \<le> length p')"
  have "\<exists>p rest. s = p @ concat ts @ rest \<and> list_all2 (\<lambda>t r. t \<in> lang r) ts rs \<and> first s p"
    using assms
  proof (induction s)
    case Nil
    then have "re_match rs [] = Some ts" by simp
    from re_match_Some[OF this] obtain rest where
      r: "[] = concat ts @ rest" "list_all2 (\<lambda>t r. t \<in> lang r) ts rs" by blast
    have "first [] []" unfolding first_def by (rule leftmost_Nil)
    moreover from r(1) have "[] = [] @ concat ts @ rest" by simp
    ultimately show ?case using r(2) by blast
  next
    case (Cons c cs)
    show ?case
    proof (cases "re_match rs (c # cs)")
      case (Some ts')
      with Cons.prems have "re_match rs (c # cs) = Some ts" by simp
      from re_match_Some[OF this] obtain rest where
        r: "c # cs = concat ts @ rest" "list_all2 (\<lambda>t r. t \<in> lang r) ts rs" by blast
      have "first (c # cs) []" unfolding first_def by (rule leftmost_Nil)
      moreover from r(1) have "c # cs = [] @ concat ts @ rest" by simp
      ultimately show ?thesis using r(2) by blast
    next
      case None
      with Cons.prems have "re_search rs cs = Some ts" by simp
      from Cons.IH[OF this] obtain p rest where
        p: "cs = p @ concat ts @ rest" "list_all2 (\<lambda>t r. t \<in> lang r) ts rs" "first cs p"
        by blast
      from None have nomatch: "\<not> (\<exists>t rest. c # cs = t @ rest \<and> t \<in> lang (seqs rs))"
        using re_match_None_iff[of rs "c # cs"] by blast
      from p(3) have "first (c # cs) (c # p)"
        unfolding first_def using nomatch by (rule leftmost_Cons)
      moreover from p(1) have "c # cs = (c # p) @ concat ts @ rest" by simp
      ultimately show ?thesis using p(2) by blast
    qed
  qed
  then show ?thesis unfolding first_def .
qed

lemma dimension_pieces:
  assumes "list_all2 (\<lambda>t r. t \<in> lang r) ts DIMENSIONS_RE"
  shows "\<exists>t1 a t2 b t3. ts = [t1, a, t2, b, t3] \<and> a \<in> lang NUMBER_RE \<and> b \<in> lang NUMBER_RE"
  using assms unfolding DIMENSIONS_RE_def by (auto simp: list_all2_Cons2)

text \<open>Every text that the number pattern can capture is a literal that \<open>float\<close> accepts.\<close>

lemma number_parses:
  assumes "a \<in> lang NUMBER_RE"
  shows "\<exists>x. float_or_none a = Some x"
proof -
  have dot: "\<not> is_digit CHR ''.''" by (simp add: is_digit_def)
  from assms obtain ip fr where
    a: "a = ip @ fr" "ip \<noteq> []" "\<forall>c \<in> set ip. is_digit c"
       "fr = [] \<or> (\<exists>fp. fr = ''.'' @ fp \<and> fp \<noteq> [] \<and> (\<forall>c \<in> set fp. is_digit c))"
    unfolding NUMBER_RE_def by auto
  from a(4) show ?thesis
  proof
    assume "fr = []"
    with a(1) have aip: "a = ip" by simp
    have tw: "takeWhile is_digit ip = ip" using a(3) by (simp add: takeWhile_eq_all_conv)
    have dw: "dropWhile is_digit ip = []" using a(3) by simp
    have "float_or_none ip = Some (round_binary64 (nat_of_digits ip) 1)"
      unfolding float_or_none_def Let_def tw dw using a(2) by simp
    then show ?thesis unfolding aip by blast
  next
    assume "\<exists>fp. fr = ''.'' @ fp \<and> fp \<noteq> [] \<and> (\<forall>c \<in> set fp. is_digit c)"
    then obtain fp where fp: "fr = ''.'' @ fp" "fp \<noteq> []" "\<forall>c \<in> set fp. is_digit c" by blast
    with a(1) have a': "a = ip @ CHR ''.'' # fp" by simp
    have tw: "takeWhile is_digit (ip @ CHR ''.'' # fp) = ip"
      using a(3) dot by (simp add: takeWhile_append2)
    have dw: "dropWhile is_digit (ip @ CHR ''.'' # fp) = CHR ''.'' # fp"
      using a(3) dot by (simp add: dropWhile_append2)
    have "float_or_none (ip @ CHR ''.'' # fp) =
            Some (round_binary64 (nat_of_digits (ip @ fp)) (10 ^ length fp))"
      unfolding float_or_none_def Let_def tw dw using a(2) fp(2,3) by (simp add: list_all_iff)
    then show ?thesis unfolding a' by blast
  qed
qed

text \<open>The float of a text is never negative, and \<open>int\<close> of it is its integer part.\<close>

lemma nat_of_digits_nonneg: "0 \<le> nat_of_digits ds"
proof -
  have "0 \<le> a \<Longrightarrow> 0 \<le> foldl (\<lambda>a c. 10 * a + digit_val c) a ds" for a
    by (induction ds arbitrary: a) (simp_all add: digit_val_def)
  then show ?thesis by (simp add: nat_of_digits_def)
qed

lemma round_half_even_nonneg:
  assumes "0 \<le> a" and "0 < b"
  shows "0 \<le> round_half_even a b"
proof -
  from assms have "0 \<le> a div b" by (simp add: pos_imp_zdiv_nonneg_iff)
  then show ?thesis by (simp add: round_half_even_def Let_def)
qed

lemma round_binary64_nonneg:
  assumes "0 \<le> n" and "0 < d" and "round_binary64 n d = Finite m x"
  shows "0 \<le> m"
proof (cases "n = 0")
  case True
  with assms(3) show ?thesis by (simp add: round_binary64_def)
next
  case False
  define e where "e = max (floor_log2 n d) (- 1022) - 52"
  define r where "r = (if 0 \<le> e then round_half_even n (d * 2 ^ nat e)
                       else round_half_even (n * 2 ^ nat (- e)) d)"
  have "0 \<le> r" unfolding r_def using assms(1,2) by (simp add: round_half_even_nonneg)
  moreover have "round_binary64 n d =
                   (if 0 \<le> e \<and> 2 ^ 1024 \<le> r * 2 ^ nat e then Infinity else Finite r e)"
    using False by (simp only: round_binary64_def Let_def e_def r_def if_False)
  with assms(3) have "m = r" by (simp split: if_splits)
  ultimately show ?thesis by simp
qed

lemma float_or_none_nonneg:
  assumes "float_or_none a = Some (Finite m x)"
  shows "0 \<le> m"
proof -
  from assms have
    "(\<exists>ds. round_binary64 (nat_of_digits ds) 1 = Finite m x) \<or>
     (\<exists>ds k. round_binary64 (nat_of_digits ds) (10 ^ k) = Finite m x)"
    unfolding float_or_none_def Let_def by (auto split: if_splits list.splits)
  then show ?thesis
  proof (elim disjE exE)
    fix ds assume r: "round_binary64 (nat_of_digits ds) 1 = Finite m x"
    show ?thesis by (rule round_binary64_nonneg[OF nat_of_digits_nonneg _ r]) simp
  next
    fix ds and k :: nat assume r: "round_binary64 (nat_of_digits ds) (10 ^ k) = Finite m x"
    show ?thesis by (rule round_binary64_nonneg[OF nat_of_digits_nonneg _ r]) simp
  qed
qed

lemma coerced_int_or_none:
  assumes "float_or_none a = Some f"
  shows "coerced f (int_or_none (Some f))"
proof (cases f)
  case Infinity
  then show ?thesis by (simp add: coerced_def)
next
  case (Finite m x)
  with assms have m: "0 \<le> m" by (simp add: float_or_none_nonneg)
  show ?thesis
  proof (cases "0 \<le> x")
    case True
    with Finite m show ?thesis by (simp add: coerced_def)
  next
    case False
    define d :: int where "d = 2 ^ nat (- x)"
    define q where "q = m div d"
    have d: "0 < d" by (simp add: d_def)
    have "m = q * d + m mod d" by (simp add: q_def)
    moreover have "0 \<le> m mod d" "m mod d < d" using d by simp_all
    ultimately have "q * d \<le> m \<and> m < (q + 1) * d" by (simp add: algebra_simps)
    with Finite m False show ?thesis by (simp add: coerced_def d_def q_def)
  qed
qed

lemma digit_val_le:
  assumes "is_digit c"
  shows "digit_val c \<le> 9"
proof -
  have "c \<in> set xs \<Longrightarrow> length (takeWhile (\<lambda>d. d \<noteq> c) xs) < length xs" for xs :: string
    by (induction xs) auto
  from this[of "''0123456789''"] assms show ?thesis
    by (simp add: digit_val_def is_digit_def)
qed

lemma foldl_digits_less:
  assumes "\<forall>c \<in> set ds. is_digit c"
  shows "foldl (\<lambda>a c. 10 * a + digit_val c) a ds < (a + 1) * 10 ^ length ds"
  using assms
proof (induction ds arbitrary: a)
  case Nil
  show ?case by simp
next
  case (Cons c ds)
  then have c: "digit_val c \<le> 9" by (simp add: digit_val_le)
  from Cons have "foldl (\<lambda>a c. 10 * a + digit_val c) (10 * a + digit_val c) ds
                    < (10 * a + digit_val c + 1) * 10 ^ length ds"
    by simp
  also from c have "\<dots> \<le> (10 * a + 10) * 10 ^ length ds"
    by (intro mult_right_mono) simp_all
  finally show ?case by (simp add: algebra_simps)
qed

lemma nat_of_digits_less:
  assumes "\<forall>c \<in> set ds. is_digit c"
  shows "nat_of_digits ds < 10 ^ length ds"
  using foldl_digits_less[OF assms, of 0] by (simp add: nat_of_digits_def)

lemma round_half_even_le: "0 < b \<Longrightarrow> round_half_even a b \<le> a div b + 1"
  by (simp add: round_half_even_def Let_def)

lemma floor_log2_le: "floor_log2 n d \<le> bitlen n - bitlen d"
  by (simp add: floor_log2_def Let_def)

text \<open>A quotient below \<open>10 ^ 308\<close> rounds to a finite float.\<close>

lemma round_binary64_finite:
  assumes "0 \<le> n" and "0 < d" and "n < d * 10 ^ 308"
  shows "round_binary64 n d \<noteq> Infinity"
proof (cases "n = 0")
  case True
  then show ?thesis by (simp add: round_binary64_def)
next
  case False
  with assms(1) have n: "0 < n" by simp
  define x where "x = max (floor_log2 n d) (- 1022) - 52"
  define m where "m = (if 0 \<le> x then round_half_even n (d * 2 ^ nat x)
                       else round_half_even (n * 2 ^ nat (- x)) d)"
  have r: "round_binary64 n d =
             (if 0 \<le> x \<and> 2 ^ 1024 \<le> m * 2 ^ nat x then Infinity else Finite m x)"
    using False by (simp only: round_binary64_def Let_def x_def m_def if_False)
  have "\<not> (0 \<le> x \<and> 2 ^ 1024 \<le> m * 2 ^ nat x)"
  proof
    assume a: "0 \<le> x \<and> 2 ^ 1024 \<le> m * 2 ^ nat x"
    define b where "b = d * 2 ^ nat x"
    have b: "0 < b" using assms(2) by (simp add: b_def)
    from a have m: "m = round_half_even n b" by (simp add: m_def b_def)
    have "(2::int) ^ nat (bitlen n - 1) \<le> n" using bitlen_bounds[OF n] by simp
    also note assms(3)
    also have "d * 10 ^ 308 < 2 ^ nat (bitlen d) * 10 ^ 308"
      using bitlen_bounds[OF assms(2)] by simp
    also have "\<dots> \<le> 2 ^ nat (bitlen d) * (2::int) ^ 1024"
      by (intro mult_left_mono) simp_all
    also have "\<dots> = 2 ^ (nat (bitlen d) + 1024)" by (simp add: power_add)
    finally have lt: "(2::int) ^ nat (bitlen n - 1) < 2 ^ (nat (bitlen d) + 1024)" .
    have "nat (bitlen n - 1) < nat (bitlen d) + 1024"
      by (rule power_less_imp_less_exp[OF _ lt]) simp
    then have "bitlen n - bitlen d \<le> 1024" using bitlen_nonneg[of d] by linarith
    with floor_log2_le[of n d] have "x \<le> 972" by (simp add: x_def)
    with a have "nat x \<le> 972" by simp
    then have p: "(2::int) ^ nat x \<le> 2 ^ 972" by (intro power_increasing) simp_all
    have "m \<le> n div b + 1" unfolding m using b by (rule round_half_even_le)
    then have "m * b \<le> (n div b + 1) * b" using b by (intro mult_right_mono) simp_all
    also have "\<dots> = n div b * b + b" by (simp add: algebra_simps)
    also have "\<dots> \<le> n + b"
    proof -
      have "n div b * b + n mod b = n" by simp
      moreover have "0 \<le> n mod b" using b by simp
      ultimately show ?thesis by linarith
    qed
    also have "\<dots> < d * 10 ^ 308 + d * 2 ^ nat x" using assms(3) by (simp add: b_def)
    also have "\<dots> \<le> d * 10 ^ 308 + d * 2 ^ 972"
      using p assms(2) by (simp add: mult_left_mono)
    also have "\<dots> = d * (10 ^ 308 + 2 ^ 972)" by (simp add: algebra_simps)
    also have "\<dots> < d * 2 ^ 1024" using assms(2) by (intro mult_strict_left_mono) simp_all
    finally have "d * (m * 2 ^ nat x) < d * 2 ^ 1024" by (simp add: b_def algebra_simps)
    then have "m * 2 ^ nat x < 2 ^ 1024" using assms(2) by (simp only: mult_less_cancel_left_pos)
    with a show False by simp
  qed
  with r show ?thesis by simp
qed

text \<open>A literal with at most 308 digits before the point has a finite float.\<close>

lemma float_or_none_finite:
  assumes "float_or_none a = Some f" and "length (takeWhile is_digit a) \<le> 308"
  shows "f \<noteq> Infinity"
proof -
  define ip where "ip = takeWhile is_digit a"
  have ipd: "\<forall>c \<in> set ip. is_digit c" unfolding ip_def by (auto dest: set_takeWhileD)
  have len: "(10::int) ^ length ip \<le> 10 ^ 308"
    using assms(2) unfolding ip_def by (intro power_increasing) simp_all
  from assms(1) consider
      (whole) "f = round_binary64 (nat_of_digits ip) 1"
    | (point) fp where "list_all is_digit fp"
        "f = round_binary64 (nat_of_digits (ip @ fp)) (10 ^ length fp)"
    unfolding float_or_none_def Let_def ip_def by (auto split: if_splits list.splits)
  then show ?thesis
  proof cases
    case whole
    have "nat_of_digits ip < 10 ^ length ip" using ipd by (rule nat_of_digits_less)
    with len have "nat_of_digits ip < 1 * 10 ^ 308" by simp
    with nat_of_digits_nonneg[of ip] show ?thesis unfolding whole
      by (intro round_binary64_finite) simp_all
  next
    case point
    from ipd point(1) have "\<forall>c \<in> set (ip @ fp). is_digit c" by (auto simp: list_all_iff)
    then have "nat_of_digits (ip @ fp) < 10 ^ length (ip @ fp)" by (rule nat_of_digits_less)
    also have "\<dots> = 10 ^ length fp * 10 ^ length ip" by (simp add: power_add)
    also have "\<dots> \<le> 10 ^ length fp * 10 ^ 308" using len by (intro mult_left_mono) simp_all
    finally show ?thesis unfolding point(2)
      using nat_of_digits_nonneg[of "ip @ fp"] by (intro round_binary64_finite) simp_all
  qed
qed

lemma int_or_none_finite:
  assumes "f \<noteq> Infinity"
  shows "\<exists>n. int_or_none (Some f) = Some n"
  using assms by (cases f) simp_all

text \<open>
  C7, as the code has it. If no text of the dimension pattern occurs in the page, width and
  height are 1920 and 1080. If one occurs, there is an occurrence \<open>t1 @ a @ t2 @ b @ t3\<close> in
  the page, none starting before it, where \<open>a\<close> and \<open>b\<close> are the texts of the two groups;
  \<open>float\<close> accepts both, and width and height are \<open>int\<close> of the two floats: where the float is
  finite, the integer \<open>n\<close> with \<open>n \<le> float < n + 1\<close>, and where the float is \<open>inf\<close>, no
  integer but \<open>None\<close>. The float is finite, and the result an integer, unless the group has
  more than 308 digits before the point. For the fragment
  \<open>"C":{"A":1280.0,"B":720.0,"C":"D"}\<close> they are 1280 and 720.
\<close>

theorem dimensions_default_or_parsed:
  "(\<not> (\<exists>p frag rest. webpage = p @ frag @ rest \<and> frag \<in> lang (seqs DIMENSIONS_RE)) \<longrightarrow>
      dimensions webpage = (Some 1920, Some 1080)) \<and>
   ((\<exists>p frag rest. webpage = p @ frag @ rest \<and> frag \<in> lang (seqs DIMENSIONS_RE)) \<longrightarrow>
      (\<exists>p t1 a t2 b t3 rest x y.
         webpage = p @ (t1 @ a @ t2 @ b @ t3) @ rest \<and>
         list_all2 (\<lambda>t r. t \<in> lang r) [t1, a, t2, b, t3] DIMENSIONS_RE \<and>
         (\<forall>p' frag' rest'. webpage = p' @ frag' @ rest' \<and> frag' \<in> lang (seqs DIMENSIONS_RE) \<longrightarrow>
            length p \<le> length p') \<and>
         float_or_none a = Some x \<and> float_or_none b = Some y \<and>
         dimensions webpage = (int_or_none (Some x), int_or_none (Some y)) \<and>
         coerced x (fst (dimensions webpage)) \<and> coerced y (snd (dimensions webpage)) \<and>
         (308 < length (takeWhile is_digit a) \<or> (\<exists>n. fst (dimensions webpage) = Some n)) \<and>
         (308 < length (takeWhile is_digit b) \<or> (\<exists>n. snd (dimensions webpage) = Some n)))) \<and>
   dimensions ''\"C\":{\"A\":1280.0,\"B\":720.0,\"C\":\"D\"}'' = (Some 1280, Some 720)"
proof (intro conjI impI)
  assume "\<not> (\<exists>p frag rest. webpage = p @ frag @ rest \<and> frag \<in> lang (seqs DIMENSIONS_RE))"
  then have "re_search DIMENSIONS_RE webpage = None" unfolding re_search_None_iff .
  then show "dimensions webpage = (Some 1920, Some 1080)"
    by (simp add: dimensions_def search_dimensions_def)
next
  assume "\<exists>p frag rest. webpage = p @ frag @ rest \<and> frag \<in> lang (seqs DIMENSIONS_RE)"
  then have "re_search DIMENSIONS_RE webpage \<noteq> None" unfolding re_search_None_iff by blast
  then obtain ts where ts: "re_search DIMENSIONS_RE webpage = Some ts" by blast
  from re_search_Some[OF this] obtain p rest where
    p: "webpage = p @ concat ts @ rest" "list_all2 (\<lambda>t r. t \<in> lang r) ts DIMENSIONS_RE"
       "\<forall>p' t' rest'. webpage = p' @ t' @ rest' \<and> t' \<in> lang (seqs DIMENSIONS_RE) \<longrightarrow>
          length p \<le> length p'"
    by blast
  from dimension_pieces[OF p(2)] obtain t1 a t2 b t3 where
    q: "ts = [t1, a, t2, b, t3]" "a \<in> lang NUMBER_RE" "b \<in> lang NUMBER_RE" by blast
  from number_parses[OF q(2)] obtain x where x: "float_or_none a = Some x" by blast
  from number_parses[OF q(3)] obtain y where y: "float_or_none b = Some y" by blast
  from ts q(1) x y have d: "dimensions webpage = (int_or_none (Some x), int_or_none (Some y))"
    by (simp add: dimensions_def search_dimensions_def)
  have cx: "coerced x (fst (dimensions webpage))"
    using coerced_int_or_none[OF x] by (simp add: d)
  have cy: "coerced y (snd (dimensions webpage))"
    using coerced_int_or_none[OF y] by (simp add: d)
  have fx: "308 < length (takeWhile is_digit a) \<or> (\<exists>n. fst (dimensions webpage) = Some n)"
  proof (cases "308 < length (takeWhile is_digit a)")
    case True
    then show ?thesis by simp
  next
    case False
    then have "length (takeWhile is_digit a) \<le> 308" by simp
    from int_or_none_finite[OF float_or_none_finite[OF x this]] show ?thesis by (simp add: d)
  qed
  have fy: "308 < length (takeWhile is_digit b) \<or> (\<exists>n. snd (dimensions webpage) = Some n)"
  proof (cases "308 < length (takeWhile is_digit b)")
    case True
    then show ?thesis by simp
  next
    case False
    then have "length (takeWhile is_digit b) \<le> 308" by simp
    from int_or_none_finite[OF float_or_none_finite[OF y this]] show ?thesis by (simp add: d)
  qed
  from p(1) q(1) have w: "webpage = p @ (t1 @ a @ t2 @ b @ t3) @ rest" by simp
  from p(2) q(1) have l: "list_all2 (\<lambda>t r. t \<in> lang r) [t1, a, t2, b, t3] DIMENSIONS_RE"
    by simp
  have
    "webpage = p @ (t1 @ a @ t2 @ b @ t3) @ rest \<and>
     list_all2 (\<lambda>t r. t \<in> lang r) [t1, a, t2, b, t3] DIMENSIONS_RE \<and>
     (\<forall>p' frag' rest'. webpage = p' @ frag' @ rest' \<and> frag' \<in> lang (seqs DIMENSIONS_RE) \<longrightarrow>
        length p \<le> length p') \<and>
     float_or_none a = Some x \<and> float_or_none b = Some y \<and>
     dimensions webpage = (int_or_none (Some x), int_or_none (Some y)) \<and>
     coerced x (fst (dimensions webpage)) \<and> coerced y (snd (dimensions webpage)) \<and>
         (308 < length (takeWhile is_digit a) \<or> (\<exists>n. fst (dimensions webpage) = Some n)) \<and>
         (308 < length (takeWhile is_digit b) \<or> (\<exists>n. snd (dimensions webpage) = Some n))"
    using w l p(3) x y d cx cy fx fy by (intro conjI)
  then show "\<exists>p t1 a t2 b t3 rest x y.
         webpage = p @ (t1 @ a @ t2 @ b @ t3) @ rest \<and>
         list_all2 (\<lambda>t r. t \<in> lang r) [t1, a, t2, b, t3] DIMENSIONS_RE \<and>
         (\<forall>p' frag' rest'. webpage = p' @ frag' @ rest' \<and> frag' \<in> lang (seqs DIMENSIONS_RE) \<longrightarrow>
            length p \<le> length p') \<and>
         float_or_none a = Some x \<and> float_or_none b = Some y \<and>
         dimensions webpage = (int_or_none (Some x), int_or_none (Some y)) \<and>
         coerced x (fst (dimensions webpage)) \<and> coerced y (snd (dimensions webpage)) \<and>
         (308 < length (takeWhile is_digit a) \<or> (\<exists>n. fst (dimensions webpage) = Some n)) \<and>
         (308 < length (takeWhile is_digit b) \<or> (\<exists>n. snd (dimensions webpage) = Some n))"
    by (intro exI[of _ p] exI[of _ t1] exI[of _ a] exI[of _ t2] exI[of _ b] exI[of _ t3]
          exI[of _ rest] exI[of _ x] exI[of _ y])
next
  show "dimensions ''\"C\":{\"A\":1280.0,\"B\":720.0,\"C\":\"D\"}'' = (Some 1280, Some 720)"
    by code_simp
qed

theorem dimensions_default_or_parsed_witness:
  "\<not> (\<exists>p frag rest. ''<html></html>'' = p @ frag @ rest \<and> frag \<in> lang (seqs DIMENSIONS_RE)) \<and>
   dimensions ''<html></html>'' = (Some 1920, Some 1080) \<and>
   (\<exists>p frag rest. example_page = p @ frag @ rest \<and> frag \<in> lang (seqs DIMENSIONS_RE)) \<and>
   (\<exists>p t1 a t2 b t3 rest x y.
      example_page = p @ (t1 @ a @ t2 @ b @ t3) @ rest \<and>
      list_all2 (\<lambda>t r. t \<in> lang r) [t1, a, t2, b, t3] DIMENSIONS_RE \<and>
      (\<forall>p' frag' rest'. example_page = p' @ frag' @ rest' \<and> frag' \<in> lang (seqs DIMENSIONS_RE) \<longrightarrow>
         length p \<le> length p') \<and>
      float_or_none a = Some x \<and> float_or_none b = Some y \<and>
      dimensions example_page = (int_or_none (Some x), int_or_none (Some y)) \<and>
      coerced x (fst (dimensions example_page)) \<and> coerced y (snd (dimensions example_page)) \<and>
      (308 < length (takeWhile is_digit a) \<or> (\<exists>n. fst (dimensions example_page) = Some n)) \<and>
      (308 < length (takeWhile is_digit b) \<or> (\<exists>n. snd (dimensions example_page) = Some n))) \<and>
   dimensions example_page = (Some 1280, Some 720)"
proof -
  have "re_search DIMENSIONS_RE ''<html></html>'' = None" by code_simp
  then have absent:
    "\<not> (\<exists>p frag rest. ''<html></html>'' = p @ frag @ rest \<and> frag \<in> lang (seqs DIMENSIONS_RE))"
    unfolding re_search_None_iff .
  have "re_search DIMENSIONS_RE example_page \<noteq> None" by code_simp
  then have present:
    "\<exists>p frag rest. example_page = p @ frag @ rest \<and> frag \<in> lang (seqs DIMENSIONS_RE)"
    unfolding re_search_None_iff by (rule notnotD)
  have dims: "dimensions example_page = (Some 1280, Some 720)" by code_simp
  note default = dimensions_default_or_parsed[of "''<html></html>''", THEN conjunct1, THEN mp, OF absent]
  note parsed = dimensions_default_or_parsed[of example_page, THEN conjunct2, THEN conjunct1, THEN mp,
      OF present]
  from absent default present parsed dims show ?thesis by (intro conjI)
qed

text \<open>The first match where the greedy choice of each piece succeeds.\<close>

lemma ms_Seq_first:
  assumes "ms r1 s = (t, rest) # xs" and "ms r2 rest = (t', rest') # ys"
  shows "\<exists>zs. ms (Seq r1 r2) s = (t @ t', rest') # zs"
  using assms by simp

lemma ms_Plus_first:
  assumes "takeWhile P s \<noteq> []"
  shows "\<exists>zs. ms (Plus P) s = (takeWhile P s, dropWhile P s) # zs"
proof -
  define n where "n = length (takeWhile P s)"
  from assms have n: "1 \<le> n" by (simp add: n_def Suc_le_eq)
  then have "[1 ..< Suc n] = [1 ..< n] @ [n]" by simp
  then have "rev [1 ..< Suc n] = n # rev [1 ..< n]" by simp
  moreover have "split_at s n = (takeWhile P s, dropWhile P s)"
    unfolding split_at_def n_def
    using takeWhile_eq_take[of P s] dropWhile_eq_drop[of P s] by simp
  ultimately show ?thesis by (simp add: n_def)
qed

lemma matches_first:
  assumes "ms r s = (t, rest) # xs" and "matches rs rest = (ts, rest') # ys"
  shows "\<exists>zs. matches (r # rs) s = (t # ts, rest') # zs"
  using assms by simp

lemma re_search_match: "re_match rs s = Some ts \<Longrightarrow> re_search rs s = Some ts"
  by (cases s) simp_all

lemma huge_page_search:
  "re_search DIMENSIONS_RE huge_page =
     Some [''\"C\":{\"A\":'', replicate 310 CHR ''9'', '',\"B\":'', ''720.0'', '',\"C\":\"D\"}'']"
proof -
  define nines where "nines = replicate 310 CHR ''9''"
  define rest where "rest = '',\"B\":720.0,\"C\":\"D\"}}''"
  define p1 where "p1 = seqs [Lit ''\"C\"'', Star is_space, Lit '':'', Star is_space, Lit ''{'',
     Star is_space, Lit ''\"A\"'', Star is_space, Lit '':'', Star is_space]"
  define ps where "ps = [seqs [Star is_space, Lit '','', Star is_space, Lit ''\"B\"'', Star is_space, Lit '':'',
            Star is_space],
      NUMBER_RE,
      seqs [Star is_space, Lit '','', Star is_space, Lit ''\"C\"'', Star is_space, Lit '':'',
            Star is_space, Lit ''\"D\"'', Star is_space, Lit ''}'']]"
  have re: "DIMENSIONS_RE = p1 # NUMBER_RE # ps"
    by (simp add: DIMENSIONS_RE_def p1_def ps_def)
  have page: "huge_page = CHR ''{'' # ''\"C\":{\"A\":'' @ nines @ rest"
    by (simp add: huge_page_def nines_def rest_def)
  have nine: "nines = CHR ''9'' # replicate 309 CHR ''9''"
    using replicate_Suc[of 309 "CHR ''9''"] by (simp add: nines_def)
  have digits: "\<forall>c \<in> set nines. is_digit c" by (simp add: nines_def is_digit_def)
  have stop: "takeWhile is_digit rest = []" unfolding rest_def by code_simp
  have stop': "dropWhile is_digit rest = rest" unfolding rest_def by code_simp
  have tw: "takeWhile is_digit (nines @ rest) = nines"
    using digits stop by (simp add: takeWhile_append2)
  have dw: "dropWhile is_digit (nines @ rest) = rest"
    using digits stop' by (simp add: dropWhile_append2)
  have "takeWhile is_digit (nines @ rest) \<noteq> []" unfolding tw by (simp add: nine)
  from ms_Plus_first[OF this] obtain zs where
    plus: "ms (Plus is_digit) (nines @ rest) = (nines, rest) # zs" unfolding tw dw by blast
  have opt: "ms (Opt (Seq (Lit ''.'') (Plus is_digit))) rest = ([], rest) # []"
    unfolding rest_def by code_simp
  from ms_Seq_first[OF plus opt] obtain zs' where
    number: "ms NUMBER_RE (nines @ rest) = (nines, rest) # zs'"
    unfolding NUMBER_RE_def by auto
  have tail: "matches ps rest = ([ '',\"B\":'', ''720.0'', '',\"C\":\"D\"}''], ''}'') # []"
    unfolding rest_def ps_def by code_simp
  have "ms p1 (''\"C\":{\"A\":'' @ CHR ''9'' # cs) = [(''\"C\":{\"A\":'', CHR ''9'' # cs)]" for cs
    unfolding p1_def by code_simp
  then have first: "ms p1 (''\"C\":{\"A\":'' @ nines @ rest) = (''\"C\":{\"A\":'', nines @ rest) # []"
    unfolding nine by simp
  from matches_first[OF number tail] obtain ys where
    "matches (NUMBER_RE # ps) (nines @ rest) = ([nines, '',\"B\":'', ''720.0'', '',\"C\":\"D\"}''], ''}'') # ys"
    by blast
  from matches_first[OF first this] obtain ys' where
    "matches DIMENSIONS_RE (''\"C\":{\"A\":'' @ nines @ rest) =
       ([''\"C\":{\"A\":'', nines, '',\"B\":'', ''720.0'', '',\"C\":\"D\"}''], ''}'') # ys'"
    unfolding re by blast
  then have "re_match DIMENSIONS_RE (''\"C\":{\"A\":'' @ nines @ rest) =
       Some [''\"C\":{\"A\":'', nines, '',\"B\":'', ''720.0'', '',\"C\":\"D\"}'']"
    by (simp add: re_match_def)
  then have found: "re_search DIMENSIONS_RE (''\"C\":{\"A\":'' @ nines @ rest) =
       Some [''\"C\":{\"A\":'', nines, '',\"B\":'', ''720.0'', '',\"C\":\"D\"}'']"
    by (rule re_search_match)
  have "ms p1 (CHR ''{'' # cs) = []" for cs unfolding p1_def by code_simp
  then have "re_match DIMENSIONS_RE (CHR ''{'' # cs) = None" for cs
    by (simp add: re re_match_def)
  then have "re_search DIMENSIONS_RE huge_page =
               re_search DIMENSIONS_RE (''\"C\":{\"A\":'' @ nines @ rest)"
    unfolding page by simp
  with found show ?thesis by (simp add: nines_def)
qed

text \<open>
  C7, as the claim has it, fails: in the page \<open>huge_page\<close> the dimension pattern matches with
  310 nines as its first field; \<open>float\<close> of that text is \<open>inf\<close>, \<open>int\<close> of \<open>inf\<close> raises
  \<open>OverflowError\<close>, and the width is \<open>None\<close>, not an integer.
\<close>

theorem dimensions_huge_page_counterexample:
  "re_search DIMENSIONS_RE huge_page =
     Some [''\"C\":{\"A\":'', replicate 310 CHR ''9'', '',\"B\":'', ''720.0'', '',\"C\":\"D\"}''] \<and>
   search_dimensions huge_page = Some (replicate 310 CHR ''9'', ''720.0'') \<and>
   float_or_none (replicate 310 CHR ''9'') = Some Infinity \<and>
   dimensions huge_page = (None, Some 720)"
proof -
  have s: "search_dimensions huge_page = Some (replicate 310 CHR ''9'', ''720.0'')"
    by (simp add: search_dimensions_def huge_page_search)
  have a: "float_or_none (replicate 310 CHR ''9'') = Some Infinity" by code_simp
  have b: "int_or_none (float_or_none ''720.0'') = Some 720" by code_simp
  from s a b have "dimensions huge_page = (None, Some 720)" by (simp add: dimensions_def)
  with huge_page_search s a show ?thesis by (intro conjI)
qed

end
